theory Spec2Isabelle
  imports Main "HOL-Library.Sublist" "HOL-Library.Multiset"
begin

section \<open>JavaScript strings\<close>

text \<open>
  A JavaScript string is a sequence of code units. The model uses \<open>string\<close>, whose
  characters are the code units 0 to 255. The route compares its texts with ASCII labels
  only, so letter case is modelled on the ASCII letters and every other code unit is left
  as it is (no code unit above 127 that a text can hold lowers or canonicalizes to a
  letter of these labels).
\<close>

definition newline :: char where
  "newline = CHR 0x0A"

definition dquote :: char where
  "dquote = CHR 0x22"

definition js_space :: "char \<Rightarrow> bool" where
  \<comment> \<open>WhiteSpace and LineTerminator below 256: TAB, LF, VT, FF, CR, SP, NBSP;
      the set that \<open>trim\<close> strips and \<open>\s\<close> matches.\<close>
  "js_space c = (c \<in> {CHR 0x09, CHR 0x0A, CHR 0x0B, CHR 0x0C, CHR 0x0D, CHR 0x20, CHR 0xA0})"

definition js_digit :: "char \<Rightarrow> bool" where
  \<comment> \<open>\<open>\d\<close> and \<open>[0-9]\<close>\<close>
  "js_digit c = (c \<in> set ''0123456789'')"

definition ascii_upper :: string where
  "ascii_upper = ''ABCDEFGHIJKLMNOPQRSTUVWXYZ''"

definition ascii_lower :: string where
  "ascii_lower = ''abcdefghijklmnopqrstuvwxyz''"

definition lower_char :: "char \<Rightarrow> char" where
  \<comment> \<open>\<open>toLowerCase\<close> on one code unit: A-Z to a-z\<close>
  "lower_char c = (case map_of (zip ascii_upper ascii_lower) c of Some l \<Rightarrow> l | None \<Rightarrow> c)"

definition toLowerCase :: "string \<Rightarrow> string" where
  "toLowerCase s = map lower_char s"

definition trim :: "string \<Rightarrow> string" where
  "trim s = rev (dropWhile js_space (rev (dropWhile js_space s)))"

definition startsWith :: "string \<Rightarrow> string \<Rightarrow> bool" where
  "startsWith s p = (take (length p) s = p)"

fun js_includes :: "string \<Rightarrow> string \<Rightarrow> bool" where
  \<comment> \<open>\<open>s.includes(p)\<close>\<close>
  "js_includes [] p = (p = [])"
| "js_includes (c # s) p = (startsWith (c # s) p \<or> js_includes s p)"

fun split_nl :: "string \<Rightarrow> string list" where
  \<comment> \<open>\<open>s.split('\n')\<close>: never empty, the empty string gives one empty line\<close>
  "split_nl [] = [[]]"
| "split_nl (c # s) =
     (if c = newline then [] # split_nl s
      else (case split_nl s of [] \<Rightarrow> [[c]] | l # ls \<Rightarrow> (c # l) # ls))"

definition substring0 :: "nat \<Rightarrow> string \<Rightarrow> string" where
  \<comment> \<open>\<open>s.substring(0, n)\<close>\<close>
  "substring0 n s = take n s"

section \<open>Regular expressions\<close>

text \<open>
  The regular expressions of the route, as a datatype, with the backtracking matcher of
  JavaScript as a list of successes in the order the engine tries them. Quantifiers
  stand on character classes only, which is all the route's patterns need.
\<close>

datatype rx =
    Cls "char \<Rightarrow> bool"
  | Eps
  | Cat rx rx
  | Alt rx rx
  | Opt rx
  | Star "char \<Rightarrow> bool"
  | Lazy "char \<Rightarrow> bool"
  | Rep nat nat "char \<Rightarrow> bool"
  | Grp rx
  | Ahead rx
  | Eos

definition rx_canon :: "char \<Rightarrow> char" where
  \<comment> \<open>Canonicalize of the \<open>i\<close> flag (no \<open>u\<close> flag), as far as it can reach an ASCII
      pattern character: a-z to A-Z. No code unit above 127 canonicalizes to ASCII.\<close>
  "rx_canon c = (case map_of (zip ascii_lower ascii_upper) c of Some u \<Rightarrow> u | None \<Rightarrow> c)"

definition chr_i :: "char \<Rightarrow> rx" where
  \<comment> \<open>an ASCII pattern character under the \<open>i\<close> flag\<close>
  "chr_i p = Cls (\<lambda>c. rx_canon c = rx_canon p)"

definition lit_i :: "string \<Rightarrow> rx" where
  \<comment> \<open>an ASCII literal under the \<open>i\<close> flag\<close>
  "lit_i p = foldr (\<lambda>c r. Cat (chr_i c) r) p Eps"

definition any_char :: "char \<Rightarrow> bool" where
  \<comment> \<open>\<open>.\<close> under the \<open>s\<close> flag\<close>
  "any_char c = True"

fun rx_match :: "rx \<Rightarrow> string \<Rightarrow> (string list \<times> string) list" where
  \<comment> \<open>the matches of a pattern at the start of the input, in the engine's order: the
      captured groups and the rest of the input\<close>
  "rx_match (Cls p) s = (case s of [] \<Rightarrow> [] | c # t \<Rightarrow> if p c then [([], t)] else [])"
| "rx_match Eps s = [([], s)]"
| "rx_match (Cat a b) s =
     concat (map (\<lambda>(c1, r1). map (\<lambda>(c2, r2). (c1 @ c2, r2)) (rx_match b r1)) (rx_match a s))"
| "rx_match (Alt a b) s = rx_match a s @ rx_match b s"
| "rx_match (Opt a) s = rx_match a s @ [([], s)]"
| "rx_match (Star p) s = map (\<lambda>n. ([], drop n s)) (rev [0..<Suc (length (takeWhile p s))])"
| "rx_match (Lazy p) s = map (\<lambda>n. ([], drop n s)) [0..<Suc (length (takeWhile p s))]"
| "rx_match (Rep m n p) s =
     map (\<lambda>j. ([], drop j s)) (rev [m..<Suc (min n (length (takeWhile p s)))])"
| "rx_match (Grp a) s = map (\<lambda>(cs, r). (take (length s - length r) s # cs, r)) (rx_match a s)"
| "rx_match (Ahead a) s = (if rx_match a s = [] then [] else [([], s)])"
| "rx_match Eos s = (if s = [] then [([], s)] else [])"

definition rx_test_anchored :: "rx \<Rightarrow> string \<Rightarrow> bool" where
  \<comment> \<open>\<open>/^r/.test(s)\<close>: a match at position 0 only\<close>
  "rx_test_anchored r s = (rx_match r s \<noteq> [])"

fun rx_exec :: "rx \<Rightarrow> string \<Rightarrow> string list option" where
  \<comment> \<open>\<open>s.match(/r/)\<close> without the \<open>g\<close> flag: the groups of the leftmost match\<close>
  "rx_exec r [] = (case rx_match r [] of [] \<Rightarrow> None | (cs, _) # _ \<Rightarrow> Some cs)"
| "rx_exec r (c # s) = (case rx_match r (c # s) of [] \<Rightarrow> rx_exec r s | (cs, _) # _ \<Rightarrow> Some cs)"

definition group1 :: "string list option \<Rightarrow> string option" where
  \<comment> \<open>\<open>m ? m[1] : null\<close>\<close>
  "group1 m = (case m of Some (g # _) \<Rightarrow> Some g | _ \<Rightarrow> None)"

section \<open>The formatter\<close>

definition confidence_line_rx :: rx where
  \<comment> \<open>\<open>/^confidence:\s*(100|[1-9]?[0-9])%$/i\<close>, the \<open>^\<close> in \<open>rx_test_anchored\<close>\<close>
  "confidence_line_rx =
     Cat (lit_i ''confidence:'')
      (Cat (Star js_space)
        (Cat (Alt (lit_i ''100'')
                  (Cat (Opt (Cls (\<lambda>c. c \<in> set ''123456789''))) (Cls js_digit)))
          (Cat (chr_i CHR ''%'') Eos)))"

definition explanation_rx :: rx where
  \<comment> \<open>\<open>/explanation:\s*(.*?)(?=exact answer:|confidence:|$)/is\<close>\<close>
  "explanation_rx =
     Cat (lit_i ''explanation:'')
      (Cat (Star js_space)
        (Cat (Grp (Lazy any_char))
          (Ahead (Alt (lit_i ''exact answer:'') (Alt (lit_i ''confidence:'') Eos)))))"

definition exactAnswer_rx :: rx where
  \<comment> \<open>\<open>/exact answer:\s*(.*?)(?=explanation:|confidence:|$)/is\<close>\<close>
  "exactAnswer_rx =
     Cat (lit_i ''exact answer:'')
      (Cat (Star js_space)
        (Cat (Grp (Lazy any_char))
          (Ahead (Alt (lit_i ''explanation:'') (Alt (lit_i ''confidence:'') Eos)))))"

definition confidence_rx :: rx where
  \<comment> \<open>\<open>/confidence:\s*(\d{1,3}%)/i\<close>\<close>
  "confidence_rx =
     Cat (lit_i ''confidence:'')
      (Cat (Star js_space) (Grp (Cat (Rep 1 3 js_digit) (chr_i CHR ''%''))))"

definition fallback_answer :: "string \<Rightarrow> string" where
  "fallback_answer query =
     ''Explanation: The research could not find a definitive answer to: '' @ [dquote] @ query
       @ [dquote] @ ''.'' @ [newline] @ ''Exact Answer: Unknown'' @ [newline] @ ''Confidence: 10%''"

definition validThreeLines :: "string \<Rightarrow> bool" where
  \<comment> \<open>the test of the formatter on \<open>lines = text.trim().split('\n').map(trim)\<close>\<close>
  "validThreeLines text =
     (case map trim (split_nl (trim text)) of
        [l0, l1, l2] \<Rightarrow>
          startsWith (toLowerCase l0) ''explanation:'' \<and>
          startsWith (toLowerCase l1) ''exact answer:'' \<and>
          rx_test_anchored confidence_line_rx l2
      | _ \<Rightarrow> False)"

definition or_default :: "string \<Rightarrow> string \<Rightarrow> string" where
  \<comment> \<open>\<open>s || d\<close> on strings: the empty string is falsy\<close>
  "or_default s d = (if s = [] then d else s)"

definition with_label :: "string \<Rightarrow> string \<Rightarrow> string \<Rightarrow> string" where
  \<comment> \<open>\<open>if (!s.toLowerCase().startsWith(lower)) s = label + s\<close>\<close>
  "with_label lower label s = (if startsWith (toLowerCase s) lower then s else label @ s)"

definition captured :: "rx \<Rightarrow> string \<Rightarrow> string" where
  \<comment> \<open>\<open>let v = ''; const m = text.match(r); if (m) v = m[1].trim()\<close>\<close>
  "captured r text = (case group1 (rx_exec r text) of None \<Rightarrow> [] | Some g \<Rightarrow> trim g)"

definition ensureValidBrowseCompFormat :: "string \<Rightarrow> string \<Rightarrow> string" where
  "ensureValidBrowseCompFormat text query =
     (if text = [] then fallback_answer query
      else if validThreeLines text then trim text
      else
        let explanation = captured explanation_rx text;
            exactAnswer = captured exactAnswer_rx text;
            confidence = captured confidence_rx text
        in if explanation \<noteq> [] \<or> exactAnswer \<noteq> [] \<or> confidence \<noteq> [] then
             with_label ''explanation:'' ''Explanation: ''
                 (or_default explanation ''The research could not find a definitive answer.'')
               @ [newline]
               @ with_label ''exact answer:'' ''Exact Answer: '' (or_default exactAnswer ''Unknown'')
               @ [newline]
               @ with_label ''confidence:'' ''Confidence: '' (or_default confidence ''30%'')
           else fallback_answer query)"

text \<open>
  The response of the eval-mode handler. The \<open>try\<close> block either reaches the final
  synthesis, whose text goes through the formatter, or an exception escapes it.
\<close>

datatype synthesis = LoopFatal | FinalText string

definition hard_fallback :: string where
  "hard_fallback =
     ''Explanation: The research did not produce a specific match for the requested constraints.''
       @ [newline] @ ''Exact Answer: Unknown'' @ [newline] @ ''Confidence: 0%''"

definition response_content :: "string \<Rightarrow> synthesis \<Rightarrow> string" where
  "response_content lastUserMessage outcome =
     (if lastUserMessage = [] then ensureValidBrowseCompFormat [] ''No message provided''
      else case outcome of
        LoopFatal \<Rightarrow> ensureValidBrowseCompFormat [] lastUserMessage
      | FinalText t \<Rightarrow>
          let formattedResult = ensureValidBrowseCompFormat t lastUserMessage
          in if \<not> js_includes formattedResult ''Exact Answer:'' then hard_fallback
             else formattedResult)"

section \<open>The analyzer's direct parse\<close>

text \<open>
  The values \<open>JSON.parse\<close> returns. An object is the list of its properties, with
  distinct keys, in insertion order. Numbers are kept as integers: the route only tests
  them for zero.
\<close>

datatype json =
    JNull
  | JBool bool
  | JNum int
  | JStr string
  | JArr "json list"
  | JObj "(string \<times> json) list"

datatype js_error = TypeError | Error string

fun truthy :: "json \<Rightarrow> bool" where
  "truthy JNull = False"
| "truthy (JBool b) = b"
| "truthy (JNum n) = (n \<noteq> 0)"
| "truthy (JStr s) = (s \<noteq> [])"
| "truthy (JArr xs) = True"
| "truthy (JObj kvs) = True"

fun get_prop :: "json \<Rightarrow> string \<Rightarrow> js_error + json option" where
  \<comment> \<open>\<open>v.k\<close> for the keys the analyzer reads: a TypeError on null, \<open>undefined\<close>
      (None) on a missing key and on a value that is not an object\<close>
  "get_prop JNull k = Inl TypeError"
| "get_prop (JObj kvs) k = Inr (map_of kvs k)"
| "get_prop v k = Inr None"

fun is_string :: "json \<Rightarrow> bool" where
  \<comment> \<open>\<open>typeof q === 'string'\<close>\<close>
  "is_string (JStr s) = True"
| "is_string v = False"

fun set_prop :: "json \<Rightarrow> string \<Rightarrow> json \<Rightarrow> json" where
  \<comment> \<open>\<open>v.k = x\<close> on an object that has the key\<close>
  "set_prop (JObj kvs) k x = JObj (map (\<lambda>(k', v). if k' = k then (k', x) else (k', v)) kvs)"
| "set_prop v k x = v"

definition after_analysis :: "json \<Rightarrow> js_error + json" where
  \<comment> \<open>the statements after \<open>if (parsed.analysis) return parsed.analysis\<close>\<close>
  "after_analysis parsed =
     (case get_prop parsed ''summary'' of
        Inl e \<Rightarrow> Inl e
      | Inr (Some s) \<Rightarrow> Inr parsed
      | Inr None \<Rightarrow>
          (case get_prop parsed ''subquestions'' of
             Inl e \<Rightarrow> Inl e
           | Inr (Some (JArr qs)) \<Rightarrow>
               Inr (set_prop parsed ''subquestions'' (JArr (filter is_string qs)))
           | Inr _ \<Rightarrow> Inr parsed))"

definition direct_parse :: "json \<Rightarrow> js_error + json" where
  \<comment> \<open>the body of the first \<open>try\<close> of parseAnalysisResponse, after \<open>JSON.parse\<close>\<close>
  "direct_parse parsed =
     (case get_prop parsed ''analysis'' of
        Inl e \<Rightarrow> Inl e
      | Inr (Some a) \<Rightarrow> if truthy a then Inr a else after_analysis parsed
      | Inr None \<Rightarrow> after_analysis parsed)"

definition parseAnalysisResponse ::
  "(string \<Rightarrow> json option) \<Rightarrow> (string \<Rightarrow> json) \<Rightarrow> string \<Rightarrow> json" where
  \<comment> \<open>\<open>JSON_parse\<close> is the built-in (None when it throws); \<open>later_tiers\<close> stands for
      methods 2 to 4 (code blocks, brace matches, textual salvage), which run when the
      first \<open>try\<close> block throws\<close>
  "parseAnalysisResponse JSON_parse later_tiers responseText =
     (case JSON_parse responseText of
        None \<Rightarrow> later_tiers responseText
      | Some parsed \<Rightarrow>
          (case direct_parse parsed of
             Inl e \<Rightarrow> later_tiers responseText
           | Inr r \<Rightarrow> r))"

section \<open>The URL filter\<close>

record url_parts =
  hostname :: string
  pathname :: string

definition blockedDomains :: "string list" where
  "blockedDomains =
     [''reddit.com'', ''brainly.com'', ''youtube.com'', ''youtu.be'',
      ''facebook.com'', ''twitter.com'', ''x.com'', ''tiktok.com'', ''instagram.com'']"

definition doc_ext_rx :: rx where
  \<comment> \<open>\<open>/\.(pdf|doc|docx)$/i\<close>\<close>
  "doc_ext_rx =
     Cat (chr_i CHR ''.'')
       (Cat (Alt (lit_i ''pdf'') (Alt (lit_i ''doc'') (lit_i ''docx''))) Eos)"

definition keep_url :: "(string \<Rightarrow> url_parts option) \<Rightarrow> string \<Rightarrow> bool" where
  \<comment> \<open>the callback of the filter; \<open>new_URL\<close> is the built-in URL constructor, None
      when it throws\<close>
  "keep_url new_URL url =
     (case new_URL url of
        None \<Rightarrow> False
      | Some u \<Rightarrow>
          let domain = hostname u
          in if rx_exec doc_ext_rx url \<noteq> None then False
             else \<not> list_ex (\<lambda>blocked. js_includes domain blocked) blockedDomains)"

definition filterUrls :: "(string \<Rightarrow> url_parts option) \<Rightarrow> string list \<Rightarrow> string list" where
  "filterUrls new_URL urls = filter (keep_url new_URL) urls"

definition sample_URL :: "string \<Rightarrow> url_parts option" where
  \<comment> \<open>what the URL constructor returns on the URLs of the examples; a table for
      the examples only\<close>
  "sample_URL u =
     (if u = ''https://example.com/a.pdf?dl=1''
        then Some \<lparr>hostname = ''example.com'', pathname = ''/a.pdf''\<rparr>
      else if u = ''https://example.com/view?f=a.pdf''
        then Some \<lparr>hostname = ''example.com'', pathname = ''/view''\<rparr>
      else if u = ''https://example.com/page''
        then Some \<lparr>hostname = ''example.com'', pathname = ''/page''\<rparr>
      else if u = ''https://www.reddit.com/r/x''
        then Some \<lparr>hostname = ''www.reddit.com'', pathname = ''/r/x''\<rparr>
      else None)"

section \<open>Extraction with retry\<close>

text \<open>
  A promise resolves with a value or rejects with a reason. For the search capability
  and the generation of subquestions the rejections considered are errors, kept by their
  message. For the extract and scrape capabilities the reason is the value thrown, which
  may be \<open>null\<close> or \<open>undefined\<close>: these are the two values on which reading
  \<open>err.message\<close> throws.
  Any other thrown value, an error object or not, has a \<open>message\<close> that can be read
  and stands under \<open>Thrown\<close>. A capability that resolves with \<open>null\<close> or
  \<open>undefined\<close> makes the read of \<open>success\<close> throw a TypeError inside the
  \<open>try\<close>, which is the behaviour of the rejection \<open>Rejected (Thrown TypeError)\<close>.
\<close>

datatype thrown = Nullish | Thrown js_error

datatype ('a, 'e) outcome = Resolved 'a | Rejected 'e

text \<open>
  The \<open>data\<close> of an extract result: missing, a string, a list of items, or another
  JSON value. \<open>JSON.stringify\<close> is a parameter of the extractor; on missing data it
  stands for the \<open>undefined\<close> the built-in returns.
\<close>

datatype payload =
    PUndefined
  | PString string
  | PArray "payload option list"
  | PJson json

record extract_result =
  ex_success :: bool
  ex_data :: payload

record scrape_result =
  sc_success :: bool
  sc_markdown :: string

record finding =
  f_text :: string
  f_source :: string

fun payload_falsy :: "payload \<Rightarrow> bool" where
  \<comment> \<open>\<open>!result.data\<close>\<close>
  "payload_falsy PUndefined = True"
| "payload_falsy (PString s) = (s = [])"
| "payload_falsy (PArray xs) = False"
| "payload_falsy (PJson j) = (\<not> truthy j)"

fun payload_text :: "(payload \<Rightarrow> string) \<Rightarrow> payload \<Rightarrow> string" where
  \<comment> \<open>\<open>typeof d === 'string' ? d : JSON.stringify(d)\<close>\<close>
  "payload_text stringify (PString s) = s"
| "payload_text stringify d = stringify d"

fun item_findings ::
  "(payload \<Rightarrow> string) \<Rightarrow> string \<Rightarrow> payload option list \<Rightarrow> js_error + finding list" where
  \<comment> \<open>\<open>result.data.map(item => ({text: ..item.data.., source: url}))\<close>; an element
      is the \<open>data\<close> of an item, None a null item, on which \<open>item.data\<close> throws\<close>
  "item_findings stringify url [] = Inr []"
| "item_findings stringify url (None # xs) = Inl TypeError"
| "item_findings stringify url (Some d # xs) =
     (case item_findings stringify url xs of
        Inl e \<Rightarrow> Inl e
      | Inr fs \<Rightarrow> Inr (\<lparr>f_text = payload_text stringify d, f_source = url\<rparr> # fs))"

definition sentinel :: string where
  "sentinel = [dquote] @ ''names'' @ [dquote] @ '':[]''"

definition extract_attempt ::
  "(payload \<Rightarrow> string) \<Rightarrow> string \<Rightarrow> (extract_result, thrown) outcome \<Rightarrow> (scrape_result, thrown) outcome
     \<Rightarrow> thrown + finding list option" where
  \<comment> \<open>the body of the \<open>try\<close> of one iteration: Inl is the value on its way to the
      \<open>catch\<close>, Inr (Some fs) a \<open>return fs\<close>, Inr None the end of the body. The race
      with the 35 s timer rejects with an Error whose message is \<open>timeout\<close>.\<close>
  "extract_attempt stringify url extracted scraped =
     (case extracted of
        Rejected reason \<Rightarrow> Inl reason
      | Resolved result \<Rightarrow>
          if ex_success result then
            (case ex_data result of
               PArray items \<Rightarrow>
                 (case item_findings stringify url items of
                    Inl e \<Rightarrow> Inl (Thrown e)
                  | Inr fs \<Rightarrow> Inr (Some fs))
             | d \<Rightarrow> Inr (Some [\<lparr>f_text = payload_text stringify d, f_source = url\<rparr>]))
          else if \<not> ex_success result \<or> payload_falsy (ex_data result)
                  \<or> js_includes (stringify (ex_data result)) sentinel then
            (case scraped of
               Resolved scrapeResult \<Rightarrow>
                 if sc_success scrapeResult \<and> sc_markdown scrapeResult \<noteq> [] then
                   Inr (Some [\<lparr>f_text = substring0 2000 (sc_markdown scrapeResult), f_source = url\<rparr>])
                 else Inr None
             | Rejected reason \<Rightarrow> Inr None)
          else Inr None)"

fun extract_loop ::
  "(payload \<Rightarrow> string) \<Rightarrow> (nat \<Rightarrow> (extract_result, thrown) outcome) \<Rightarrow> (nat \<Rightarrow> (scrape_result, thrown) outcome)
     \<Rightarrow> string \<Rightarrow> nat \<Rightarrow> nat \<Rightarrow> js_error + finding list" where
  \<comment> \<open>\<open>for (let i = ..; i <= retries; i++)\<close> with \<open>k\<close> iterations left, then
      \<open>return []\<close>. The \<open>catch\<close> logs \<open>err.message\<close>, waits and goes on; on a
      \<open>null\<close> or \<open>undefined\<close> \<open>err\<close> reading the message throws a TypeError,
      which leaves the function.\<close>
  "extract_loop stringify ex sc url i 0 = Inr []"
| "extract_loop stringify ex sc url i (Suc k) =
     (case extract_attempt stringify url (ex i) (sc i) of
        Inr (Some fs) \<Rightarrow> Inr fs
      | Inr None \<Rightarrow> extract_loop stringify ex sc url (Suc i) k
      | Inl Nullish \<Rightarrow> Inl TypeError
      | Inl (Thrown err) \<Rightarrow> extract_loop stringify ex sc url (Suc i) k)"

definition extractWithRetry ::
  "(payload \<Rightarrow> string) \<Rightarrow> (nat \<Rightarrow> (extract_result, thrown) outcome) \<Rightarrow> (nat \<Rightarrow> (scrape_result, thrown) outcome)
     \<Rightarrow> string \<Rightarrow> nat \<Rightarrow> js_error + finding list" where
  \<comment> \<open>\<open>ex i\<close> and \<open>sc i\<close> are what the extract and scrape capabilities answer in
      iteration \<open>i\<close>; \<open>stringify\<close> is \<open>JSON.stringify\<close>\<close>
  "extractWithRetry stringify ex sc url retries = extract_loop stringify ex sc url 0 (Suc retries)"

definition extractFromUrls ::
  "(string \<Rightarrow> url_parts option) \<Rightarrow> (payload \<Rightarrow> string) \<Rightarrow> (string \<Rightarrow> nat \<Rightarrow> (extract_result, thrown) outcome)
     \<Rightarrow> (string \<Rightarrow> nat \<Rightarrow> (scrape_result, thrown) outcome) \<Rightarrow> string list \<Rightarrow> finding list" where
  \<comment> \<open>the \<open>catch\<close> around each URL logs the message of the error and goes on\<close>
  "extractFromUrls new_URL stringify ex sc urls =
     concat (map (\<lambda>url. case extractWithRetry stringify (ex url) (sc url) url 2 of
                          Inr extractResults \<Rightarrow> extractResults
                        | Inl e \<Rightarrow> [])
                 (filterUrls new_URL urls))"

definition names_payload :: payload where
  \<comment> \<open>the payload \<open>{names: []}\<close>\<close>
  "names_payload = PJson (JObj [(''names'', JArr [])])"

definition sample_stringify :: "payload \<Rightarrow> string" where
  \<comment> \<open>\<open>JSON.stringify\<close> on the payload of the examples; a table for the examples
      only\<close>
  "sample_stringify d =
     (if d = names_payload then ''{'' @ [dquote] @ ''names'' @ [dquote] @ '':[]}'' else ''null'')"

section \<open>Search with retry\<close>

record search_hit =
  hit_url :: string
  hit_title :: "string option"

record search_response =
  sr_success :: bool
  sr_data :: "search_hit list"

fun search_loop ::
  "(nat \<Rightarrow> (search_response, string) outcome) \<Rightarrow> nat \<Rightarrow> nat \<Rightarrow> nat \<Rightarrow> js_error + search_response" where
  \<comment> \<open>\<open>for (let i = ..; i <= retries; i++)\<close> with \<open>k\<close> iterations left; after the
      loop \<open>throw new Error(..)\<close>, whose message (it names the number of attempts) is
      shortened here\<close>
  "search_loop srch retries i 0 = Inl (Error ''Search failed'')"
| "search_loop srch retries i (Suc k) =
     (case srch i of
        Resolved result \<Rightarrow>
          if sr_success result then Inr result
          else search_loop srch retries (Suc i) k
      | Rejected msg \<Rightarrow>
          if i = retries then Inl (Error msg)
          else search_loop srch retries (Suc i) k)"

definition searchWithRetry :: "(nat \<Rightarrow> (search_response, string) outcome) \<Rightarrow> nat \<Rightarrow> js_error + search_response" where
  "searchWithRetry srch retries = search_loop srch retries 0 (Suc retries)"

section \<open>The URL frequency ranker\<close>

record url_entry =
  url :: string
  frequency :: nat
  title :: "string option"

text \<open>A \<open>Map\<close> keeps its entries in insertion order: an association list.\<close>

type_synonym url_map = "(string \<times> url_entry) list"

definition record_hit :: "url_map \<Rightarrow> search_hit \<Rightarrow> url_map" where
  \<comment> \<open>the callback of \<open>searchResult.data.forEach\<close>\<close>
  "record_hit m h =
     (case map_of m (hit_url h) of
        Some existing \<Rightarrow>
          map (\<lambda>(k, e). if k = hit_url h then (k, e\<lparr>frequency := frequency e + 1\<rparr>) else (k, e)) m
      | None \<Rightarrow> m @ [(hit_url h, \<lparr>url = hit_url h, frequency = 1, title = hit_title h\<rparr>)])"

definition record_hits :: "url_map \<Rightarrow> search_hit list \<Rightarrow> url_map" where
  "record_hits m hs = foldl record_hit m hs"

fun js_insert :: "('a \<Rightarrow> 'a \<Rightarrow> int) \<Rightarrow> 'a \<Rightarrow> 'a list \<Rightarrow> 'a list" where
  "js_insert cmp x [] = [x]"
| "js_insert cmp x (y # ys) = (if cmp x y \<le> 0 then x # y # ys else y # js_insert cmp x ys)"

definition js_sort :: "('a \<Rightarrow> 'a \<Rightarrow> int) \<Rightarrow> 'a list \<Rightarrow> 'a list" where
  \<comment> \<open>\<open>Array.prototype.sort(cmp)\<close>, which is stable: an insertion sort that puts an
      element before the later elements it does not exceed\<close>
  "js_sort cmp xs = foldr (js_insert cmp) xs []"

definition by_frequency :: "url_entry \<Rightarrow> url_entry \<Rightarrow> int" where
  \<comment> \<open>\<open>(a, b) => b.frequency - a.frequency\<close>\<close>
  "by_frequency a b = int (frequency b) - int (frequency a)"

definition getUrlsToProcess :: "url_map \<Rightarrow> string set \<Rightarrow> string list" where
  "getUrlsToProcess urlFrequencyMap processedUrls =
     (let sortedUrls =
            filter (\<lambda>u. u \<notin> processedUrls) (map url (js_sort by_frequency (map snd urlFrequencyMap)))
      in take 3 sortedUrls)"

definition hits_of :: "string list \<Rightarrow> search_hit list" where
  \<comment> \<open>a search response that lists the given URLs, without titles\<close>
  "hits_of us = map (\<lambda>u. \<lparr>hit_url = u, hit_title = None\<rparr>) us"

section \<open>The research loop\<close>

record analysis_result =
  summary :: string
  hasAnswer :: bool
  confidence :: string
  shouldContinue :: bool
  a_nextSearchTopic :: string
  a_subquestions :: "string list"
  subAnswer :: string

record research_state =
  findings :: "finding list"
  summaries :: "string list"
  nextSearchTopic :: string
  currentDepth :: nat
  failedAttempts :: nat
  maxFailedAttempts :: nat
  processedUrls :: "string set"
  subquestions :: "string list"
  answeredSubquestions :: "string list"
  subAnswers :: "(string \<times> string) list"
  urlFrequencyMap :: url_map

text \<open>
  What the outside answers during one hop: the clock at the top of the hop, the
  subquestions the model generates (after the parsing and filtering of the handler, or
  an exception), the search attempts of each of the five queries, the extract and scrape
  attempts on each URL, and the value \<open>analyzeAndPlan\<close> returns (None for a falsy
  value).
\<close>

record hop_env =
  he_now :: int
  he_subquestions :: "(string list, string) outcome"
  he_search :: "nat \<Rightarrow> nat \<Rightarrow> (search_response, string) outcome"
  he_extract :: "string \<Rightarrow> nat \<Rightarrow> (extract_result, thrown) outcome"
  he_scrape :: "string \<Rightarrow> nat \<Rightarrow> (scrape_result, thrown) outcome"
  he_analysis :: "analysis_result option"

text \<open>
  What is fixed during a request: the question, the start time, the built-ins, and
  three text functions of the route (generateFallbackQuery, extractKeyTerms, isGeneric)
  whose results only feed the queries sent outside; they are parameters here.
\<close>

record request =
  rq_lastUserMessage :: string
  rq_startTime :: int
  rq_new_URL :: "string \<Rightarrow> url_parts option"
  rq_stringify :: "payload \<Rightarrow> string"
  rq_generateFallbackQuery :: "string \<Rightarrow> string"
  rq_extractKeyTerms :: "string \<Rightarrow> string"
  rq_isGeneric :: "string \<Rightarrow> bool"

datatype flow = Break | Continue

definition maxDepth :: nat where
  "maxDepth = 6"

definition timeLimit :: int where
  \<comment> \<open>\<open>3.5 * 60 * 1000\<close>\<close>
  "timeLimit = 210000"

definition initial_state :: research_state where
  "initial_state =
     \<lparr>findings = [], summaries = [], nextSearchTopic = [], currentDepth = 0,
      failedAttempts = 0, maxFailedAttempts = 3, processedUrls = {}, subquestions = [],
      answeredSubquestions = [], subAnswers = [], urlFrequencyMap = []\<rparr>"

definition select_topic :: "request \<Rightarrow> hop_env \<Rightarrow> research_state \<Rightarrow> string \<times> research_state" where
  "select_topic rq env st =
     (if currentDepth st = 1 then (rq_lastUserMessage rq, st)
      else if subquestions st \<noteq> [] then
        (hd (subquestions st),
         st\<lparr>subquestions := tl (subquestions st),
            answeredSubquestions := answeredSubquestions st @ [hd (subquestions st)]\<rparr>)
      else if nextSearchTopic st = [] \<or> rq_isGeneric rq (nextSearchTopic st) then
        (case he_subquestions env of
           Resolved initialSubs \<Rightarrow>
             if initialSubs \<noteq> [] then
               (or_default (hd initialSubs) (rq_generateFallbackQuery rq (rq_lastUserMessage rq)),
                st\<lparr>subquestions := tl initialSubs\<rparr>)
             else (rq_generateFallbackQuery rq (rq_lastUserMessage rq), st)
         | Rejected msg \<Rightarrow> (rq_extractKeyTerms rq (rq_lastUserMessage rq), st))
      else (nextSearchTopic st, st))"

definition run_searches :: "(nat \<Rightarrow> nat \<Rightarrow> (search_response, string) outcome) \<Rightarrow> url_map \<Rightarrow> url_map" where
  \<comment> \<open>the five queries of a hop; a search that throws is logged and skipped\<close>
  "run_searches srch m =
     foldl (\<lambda>m q. case searchWithRetry (srch q) 3 of
                     Inl e \<Rightarrow> m
                   | Inr searchResult \<Rightarrow>
                       if sr_success searchResult then record_hits m (sr_data searchResult) else m)
           m [0..<5]"

definition count_failure :: "research_state \<Rightarrow> flow \<times> research_state" where
  \<comment> \<open>\<open>failedAttempts++; if (failedAttempts >= maxFailedAttempts) break; continue\<close>\<close>
  "count_failure st =
     (let st' = st\<lparr>failedAttempts := failedAttempts st + 1\<rparr>
      in if failedAttempts st' \<ge> maxFailedAttempts st' then (Break, st') else (Continue, st'))"

definition apply_analysis :: "string \<Rightarrow> analysis_result \<Rightarrow> research_state \<Rightarrow> flow \<times> research_state" where
  "apply_analysis searchTopic analysis st =
     (let st1 = (if subAnswer analysis \<noteq> [] \<and> searchTopic \<noteq> []
                 then st\<lparr>subAnswers := subAnswers st @ [(searchTopic, subAnswer analysis)]\<rparr>
                 else st);
          st2 = (if a_subquestions analysis \<noteq> []
                 then st1\<lparr>subquestions := subquestions st1 @
                        filter (\<lambda>q. q \<notin> set (subquestions st1) \<and> q \<notin> set (answeredSubquestions st1))
                          (a_subquestions analysis)\<rparr>
                 else st1);
          st3 = st2\<lparr>summaries := summaries st2 @ [summary analysis]\<rparr>;
          shouldStop =
            ((hasAnswer analysis \<and> confidence analysis = ''high'' \<and> length (findings st3) \<ge> 3)
             \<or> (hasAnswer analysis \<and> confidence analysis = ''medium'' \<and> length (findings st3) \<ge> 6)
             \<or> length (findings st3) \<ge> 8)
      in if shouldStop then (Break, st3)
         else if \<not> shouldContinue analysis then (Break, st3)
         else (Continue, st3\<lparr>nextSearchTopic := a_nextSearchTopic analysis\<rparr>))"

definition hop :: "request \<Rightarrow> hop_env \<Rightarrow> research_state \<Rightarrow> flow \<times> research_state" where
  \<comment> \<open>the body of the \<open>while\<close> loop after the time check\<close>
  "hop rq env st0 =
     (let (topic, st1) = select_topic rq env (st0\<lparr>currentDepth := currentDepth st0 + 1\<rparr>);
          searchTopic = (if failedAttempts st1 \<ge> 2 \<and> findings st1 = []
                         then rq_generateFallbackQuery rq (rq_lastUserMessage rq) else topic);
          st2 = st1\<lparr>urlFrequencyMap := run_searches (he_search env) (urlFrequencyMap st1)\<rparr>;
          topUrls = getUrlsToProcess (urlFrequencyMap st2) (processedUrls st2)
      in if topUrls = [] then count_failure st2
         else
           let st3 = st2\<lparr>processedUrls := processedUrls st2 \<union> set topUrls\<rparr>;
               newFindings = extractFromUrls (rq_new_URL rq) (rq_stringify rq)
                               (he_extract env) (he_scrape env) topUrls;
               st4 = st3\<lparr>findings := findings st3 @ newFindings\<rparr>
           in case he_analysis env of
                None \<Rightarrow> count_failure st4
              | Some analysis \<Rightarrow> apply_analysis searchTopic analysis st4)"

lemma count_failure_depth: "currentDepth (snd (count_failure st)) = currentDepth st"
  by (simp add: count_failure_def Let_def)

lemma apply_analysis_depth: "currentDepth (snd (apply_analysis t a st)) = currentDepth st"
  by (simp add: apply_analysis_def Let_def)

lemma select_topic_depth: "currentDepth (snd (select_topic rq env st)) = currentDepth st"
  by (simp add: select_topic_def split: outcome.split)

lemma hop_depth: "currentDepth (snd (hop rq env st)) = Suc (currentDepth st)"
proof -
  obtain topic st1
    where sel: "select_topic rq env (st\<lparr>currentDepth := currentDepth st + 1\<rparr>) = (topic, st1)"
    by (cases "select_topic rq env (st\<lparr>currentDepth := currentDepth st + 1\<rparr>)")
  have d1: "currentDepth st1 = Suc (currentDepth st)"
    using select_topic_depth [of rq env "st\<lparr>currentDepth := currentDepth st + 1\<rparr>"] sel by simp
  show ?thesis
    unfolding hop_def sel
    by (simp add: Let_def count_failure_depth apply_analysis_depth d1 split: option.split)
qed

lemma hop_continue_depth:
  "(Continue, y) = hop rq env st \<Longrightarrow> currentDepth y = Suc (currentDepth st)"
  using hop_depth [of rq env st] by (metis snd_conv)

text \<open>
  The \<open>while\<close> loop of the handler. \<open>envs d\<close> is what the outside answers during
  the hop that starts at depth \<open>d\<close>. The first component of the result counts the hops
  that ran (a ghost counter, not in the source); the second is the state at the exit.
\<close>

function research_loop :: "request \<Rightarrow> (nat \<Rightarrow> hop_env) \<Rightarrow> research_state \<Rightarrow> nat \<times> research_state" where
  "research_loop rq envs st =
     (if currentDepth st < maxDepth then
        (if he_now (envs (currentDepth st)) - rq_startTime rq \<ge> timeLimit then (0, st)
         else (case hop rq (envs (currentDepth st)) st of
                 (Break, st') \<Rightarrow> (1, st')
               | (Continue, st') \<Rightarrow>
                   (let (n, final) = research_loop rq envs st' in (Suc n, final))))
      else (0, st))"
  by pat_completeness auto
termination
  by (relation "measure (\<lambda>(rq, envs, st). maxDepth - currentDepth st)")
     (auto dest: hop_continue_depth)

declare research_loop.simps [simp del]

section \<open>Sample data\<close>

text \<open>Concrete inputs for the examples that accompany the theorems.\<close>

definition sample_parse :: "string \<Rightarrow> json option" where
  \<comment> \<open>\<open>JSON.parse\<close> on the texts of the examples; a table for the examples only\<close>
  "sample_parse s =
     (if s = ''null'' then Some JNull else if s = ''0'' then Some (JNum 0) else None)"

definition sample_analysis :: analysis_result where
  "sample_analysis =
     \<lparr>summary = ''identified'', hasAnswer = True, confidence = ''high'', shouldContinue = False,
      a_nextSearchTopic = [], a_subquestions = [], subAnswer = []\<rparr>"

definition sample_request :: request where
  \<comment> \<open>the three text functions are stand-ins\<close>
  "sample_request =
     \<lparr>rq_lastUserMessage = ''Which river is the longest?'', rq_startTime = 0,
      rq_new_URL = sample_URL, rq_stringify = sample_stringify,
      rq_generateFallbackQuery = (\<lambda>q. ''longest river''),
      rq_extractKeyTerms = (\<lambda>q. ''longest river''),
      rq_isGeneric = (\<lambda>q. False)\<rparr>"

definition env_no_hits :: hop_env where
  \<comment> \<open>a hop in which every search succeeds at once and lists nothing\<close>
  "env_no_hits =
     \<lparr>he_now = 1000, he_subquestions = Resolved [],
      he_search = (\<lambda>q i. Resolved \<lparr>sr_success = True, sr_data = []\<rparr>),
      he_extract = (\<lambda>u i. Rejected (Thrown (Error ''timeout''))),
      he_scrape = (\<lambda>u i. Rejected (Thrown (Error ''down''))),
      he_analysis = Some sample_analysis\<rparr>"

definition env_search_down :: hop_env where
  \<comment> \<open>a hop whose first query fails in all four attempts, while the other four list
      one page\<close>
  "env_search_down =
     \<lparr>he_now = 1000, he_subquestions = Resolved [],
      he_search = (\<lambda>q i. if q = 0 then Rejected ''down''
                        else Resolved \<lparr>sr_success = True,
                                       sr_data = hits_of [''https://example.com/page'']\<rparr>),
      he_extract = (\<lambda>u i. Resolved \<lparr>ex_success = True, ex_data = PString ''The Nile''\<rparr>),
      he_scrape = (\<lambda>u i. Rejected (Thrown (Error ''down''))),
      he_analysis = Some sample_analysis\<rparr>"

definition env_late :: hop_env where
  \<comment> \<open>as \<open>env_search_down\<close>, with the clock at the time limit\<close>
  "env_late = env_search_down\<lparr>he_now := 210000\<rparr>"



definition multiline_answer :: string where
  \<comment> \<open>a final text whose explanation takes two lines\<close>
  "multiline_answer =
     ''Explanation: The Nile is the longest.'' @ [newline] @ ''It is 6650 km long.'' @ [newline]
       @ ''Exact Answer: Nile'' @ [newline] @ ''Confidence: 90%''"

definition nested_label :: string where
  \<comment> \<open>a final text whose explanation begins with the label once more, in capitals\<close>
  "nested_label = ''explanation: EXPLANATION:foo'' @ [newline] @ ''bar''"

definition format_question :: string where
  \<comment> \<open>a question that quotes the answer format\<close>
  "format_question =
     ''Who?'' @ [newline] @ ''Exact Answer: {answer}'' @ [newline] @ ''Confidence: {score}''"

section \<open>Notions used in the statements\<close>

text \<open>
  What a pattern matches, stated without the engine: \<open>rx_sem r u rest\<close> says that
  \<open>r\<close> matches the text \<open>u\<close> when \<open>rest\<close> follows it.
\<close>

fun rx_sem :: "rx \<Rightarrow> string \<Rightarrow> string \<Rightarrow> bool" where
  "rx_sem (Cls p) u rest = (\<exists>c. u = [c] \<and> p c)"
| "rx_sem Eps u rest = (u = [])"
| "rx_sem (Cat a b) u rest = (\<exists>v w. u = v @ w \<and> rx_sem a v (w @ rest) \<and> rx_sem b w rest)"
| "rx_sem (Alt a b) u rest = (rx_sem a u rest \<or> rx_sem b u rest)"
| "rx_sem (Opt a) u rest = (rx_sem a u rest \<or> u = [])"
| "rx_sem (Star p) u rest = list_all p u"
| "rx_sem (Lazy p) u rest = list_all p u"
| "rx_sem (Rep m n p) u rest = (list_all p u \<and> m \<le> length u \<and> length u \<le> n)"
| "rx_sem (Grp a) u rest = rx_sem a u rest"
| "rx_sem (Ahead a) u rest = (u = [] \<and> (\<exists>v w. rest = v @ w \<and> rx_sem a v w))"
| "rx_sem Eos u rest = (u = [] \<and> rest = [])"

definition eq_i :: "string \<Rightarrow> string \<Rightarrow> bool" where
  \<comment> \<open>equal up to the case of the ASCII letters\<close>
  "eq_i a b = (map rx_canon a = map rx_canon b)"

fun join_nl :: "string list \<Rightarrow> string" where
  \<comment> \<open>\<open>lines.join('\n')\<close>\<close>
  "join_nl [] = []"
| "join_nl [l] = l"
| "join_nl (l # ls) = l @ newline # join_nl ls"

definition confidence_shape :: "string \<Rightarrow> bool" where
  \<comment> \<open>\<open>confidence:\<close> in any case, whitespace, one to three digits, \<open>%\<close>\<close>
  "confidence_shape c =
     (\<exists>l w d. c = l @ w @ d @ ''%'' \<and> eq_i l ''confidence:'' \<and> list_all js_space w
        \<and> list_all js_digit d \<and> 1 \<le> length d \<and> length d \<le> 3)"

definition three_sections :: "string \<Rightarrow> bool" where
  \<comment> \<open>three sections separated by line breaks, each read after trimming: the first
      starts with \<open>explanation:\<close>, the second with \<open>exact answer:\<close> (in any
      case), the third is a confidence of the shape above\<close>
  "three_sections s =
     (\<exists>e a c. s = e @ [newline] @ a @ [newline] @ c
        \<and> startsWith (toLowerCase (trim e)) ''explanation:''
        \<and> startsWith (toLowerCase (trim a)) ''exact answer:''
        \<and> confidence_shape (trim c))"

definition salvaged :: "string \<Rightarrow> string" where
  \<comment> \<open>the text the formatter builds from the sections it salvages\<close>
  "salvaged x =
     with_label ''explanation:'' ''Explanation: ''
         (or_default (captured explanation_rx x) ''The research could not find a definitive answer.'')
       @ [newline]
       @ with_label ''exact answer:'' ''Exact Answer: '' (or_default (captured exactAnswer_rx x) ''Unknown'')
       @ [newline]
       @ with_label ''confidence:'' ''Confidence: '' (or_default (captured confidence_rx x) ''30%'')"

text \<open>
  A label found by a pattern under the \<open>i\<close> flag: \<open>starts_i s l\<close> says that \<open>s\<close>
  begins with the label \<open>l\<close> in any case of its letters, \<open>contains_i s l\<close> that
  the label occurs somewhere in \<open>s\<close>.
\<close>

definition starts_i :: "string \<Rightarrow> string \<Rightarrow> bool" where
  "starts_i s l = eq_i (take (length l) s) l"

fun contains_i :: "string \<Rightarrow> string \<Rightarrow> bool" where
  "contains_i [] l = starts_i [] l"
| "contains_i (c # s) l = (starts_i (c # s) l \<or> contains_i s l)"

definition canonical_answer :: "string \<Rightarrow> bool" where
  \<comment> \<open>the three labels as the formatter spells them, each followed by one space; an
      explanation and an exact answer that are not empty, carry no white space at their
      ends, do not begin with their own label and contain none of the labels that would
      end them (for the explanation \<open>exact answer:\<close> and \<open>confidence:\<close>, for the
      exact answer \<open>explanation:\<close> and \<open>confidence:\<close>, in any case); a confidence
      of one to three digits and \<open>%\<close>. The explanation and the exact answer may take
      several lines.\<close>
  "canonical_answer y =
     (\<exists>e a d. y = ''Explanation: '' @ e @ [newline] @ ''Exact Answer: '' @ a @ [newline]
                    @ ''Confidence: '' @ d @ ''%''
        \<and> e \<noteq> [] \<and> trim e = e \<and> \<not> startsWith (toLowerCase e) ''explanation:''
        \<and> \<not> contains_i e ''exact answer:'' \<and> \<not> contains_i e ''confidence:''
        \<and> a \<noteq> [] \<and> trim a = a \<and> \<not> startsWith (toLowerCase a) ''exact answer:''
        \<and> \<not> contains_i a ''explanation:'' \<and> \<not> contains_i a ''confidence:''
        \<and> list_all js_digit d \<and> 1 \<le> length d \<and> length d \<le> 3)"

text \<open>
  Two devices of the proofs about the salvage patterns: the text a lazy group takes
  before its lookahead \<open>a\<close> holds for the first time, and a fixed prefix in which no
  occurrence of the label \<open>l\<close> can begin, whatever follows the prefix.
\<close>

fun lazy_cut :: "rx \<Rightarrow> string \<Rightarrow> string" where
  "lazy_cut a [] = []"
| "lazy_cut a (c # s) = (if rx_match a (c # s) \<noteq> [] then [] else c # lazy_cut a s)"

definition clear_of :: "string \<Rightarrow> string \<Rightarrow> bool" where
  "clear_of p l =
     list_all (\<lambda>m. \<not> eq_i (take (length l) (drop m p)) (take (length p - m) l)) [0..<length p]"

fun returned :: "thrown + finding list option \<Rightarrow> bool" where
  \<comment> \<open>the iteration ended in a \<open>return\<close>\<close>
  "returned (Inr (Some fs)) = True"
| "returned a = False"


definition field :: "json \<Rightarrow> string \<Rightarrow> json option" where
  \<comment> \<open>the value of a key of a parsed object; None when the key is missing or the value
      is not an object\<close>
  "field v k = (case v of JObj kvs \<Rightarrow> map_of kvs k | _ \<Rightarrow> None)"

definition hop_failed :: "hop_env \<Rightarrow> research_state \<Rightarrow> bool" where
  \<comment> \<open>the hop finds no unseen URL after its searches, or its analysis comes back falsy\<close>
  "hop_failed env st =
     (getUrlsToProcess (run_searches (he_search env) (urlFrequencyMap st)) (processedUrls st) = []
      \<or> he_analysis env = None)"

section \<open>The matcher and what a pattern matches\<close>

lemma drop_within_takeWhile:
  "(\<exists>n \<le> length (takeWhile p s). rest = drop n s \<and> P n)
   = (\<exists>u. s = u @ rest \<and> list_all p u \<and> P (length u))"
proof
  assume "\<exists>n \<le> length (takeWhile p s). rest = drop n s \<and> P n"
  then obtain n where n: "n \<le> length (takeWhile p s)" "rest = drop n s" "P n" by blast
  have len: "n \<le> length s"
    using n(1) length_takeWhile_le [of p s] by linarith
  have "take n s = take n (takeWhile p s)"
    using n(1) by (metis takeWhile_dropWhile_id append_eq_conv_conj take_append min.absorb2
        length_take min.commute take_all_iff append.right_neutral diff_is_0_eq take_0)
  then have "list_all p (take n s)"
    by (metis in_set_takeD list_all_iff set_takeWhileD)
  moreover have "s = take n s @ rest" using n(2) by simp
  moreover have "length (take n s) = n" using len by simp
  ultimately show "\<exists>u. s = u @ rest \<and> list_all p u \<and> P (length u)"
    using n(3) by metis
next
  assume "\<exists>u. s = u @ rest \<and> list_all p u \<and> P (length u)"
  then obtain u where u: "s = u @ rest" "list_all p u" "P (length u)" by blast
  have "takeWhile p s = u @ takeWhile p rest"
    using u(1,2) by (simp add: list_all_iff takeWhile_append2)
  then have "length u \<le> length (takeWhile p s)" by simp
  moreover have "rest = drop (length u) s" using u(1) by simp
  ultimately show "\<exists>n \<le> length (takeWhile p s). rest = drop n s \<and> P n"
    using u(3) by blast
qed

lemma drops_mem:
  "(\<exists>cs. (cs, rest) \<in> set (map (\<lambda>n. ([]::string list, drop n s)) ns))
   = (\<exists>n. n \<in> set ns \<and> rest = drop n s)"
  by (auto simp: image_iff)

lemma rx_match_sem:
  "(\<exists>cs. (cs, rest) \<in> set (rx_match r s)) = (\<exists>u. s = u @ rest \<and> rx_sem r u rest)"
proof (induction r arbitrary: s rest)
  case (Cls p)
  show ?case by (cases s) auto
next
  case Eps
  show ?case by auto
next
  case (Cat a b)
  have "(\<exists>cs. (cs, rest) \<in> set (rx_match (Cat a b) s))
        = (\<exists>r1. (\<exists>c1. (c1, r1) \<in> set (rx_match a s)) \<and> (\<exists>c2. (c2, rest) \<in> set (rx_match b r1)))"
    by (auto; force)
  also have "\<dots> = (\<exists>r1. (\<exists>v. s = v @ r1 \<and> rx_sem a v r1) \<and> (\<exists>w. r1 = w @ rest \<and> rx_sem b w rest))"
    by (simp only: Cat.IH)
  also have "\<dots> = (\<exists>u. s = u @ rest \<and> rx_sem (Cat a b) u rest)"
    by (auto; force)
  finally show ?case .
next
  case (Alt a b)
  have "(\<exists>cs. (cs, rest) \<in> set (rx_match (Alt a b) s))
        = ((\<exists>cs. (cs, rest) \<in> set (rx_match a s)) \<or> (\<exists>cs. (cs, rest) \<in> set (rx_match b s)))"
    by auto
  then show ?case
    by (simp only: Alt.IH) auto
next
  case (Opt a)
  have "(\<exists>cs. (cs, rest) \<in> set (rx_match (Opt a) s))
        = ((\<exists>cs. (cs, rest) \<in> set (rx_match a s)) \<or> rest = s)"
    by auto
  then show ?case
    by (simp only: Opt.IH) auto
next
  case (Star p)
  have "(\<exists>cs. (cs, rest) \<in> set (rx_match (Star p) s))
        = (\<exists>n \<le> length (takeWhile p s). rest = drop n s \<and> True)"
    by (simp only: rx_match.simps drops_mem) (auto simp: less_Suc_eq_le simp del: upt_Suc)
  then show ?case
    by (simp only: drop_within_takeWhile) simp
next
  case (Lazy p)
  have "(\<exists>cs. (cs, rest) \<in> set (rx_match (Lazy p) s))
        = (\<exists>n \<le> length (takeWhile p s). rest = drop n s \<and> True)"
    by (simp only: rx_match.simps drops_mem) (auto simp: less_Suc_eq_le simp del: upt_Suc)
  then show ?case
    by (simp only: drop_within_takeWhile) simp
next
  case (Rep m n p)
  have "(\<exists>cs. (cs, rest) \<in> set (rx_match (Rep m n p) s))
        = (\<exists>j \<le> length (takeWhile p s). rest = drop j s \<and> (m \<le> j \<and> j \<le> n))"
    by (simp only: rx_match.simps drops_mem) (auto simp: less_Suc_eq_le simp del: upt_Suc)
  then show ?case
    by (simp only: drop_within_takeWhile) auto
next
  case (Grp a)
  have "(\<exists>cs. (cs, rest) \<in> set (rx_match (Grp a) s)) = (\<exists>cs. (cs, rest) \<in> set (rx_match a s))"
    by (auto; force)
  then show ?case
    by (simp only: Grp.IH) simp
next
  case (Ahead a)
  have "(\<exists>cs. (cs, rest) \<in> set (rx_match (Ahead a) s))
        = (rest = s \<and> (\<exists>w. \<exists>cs. (cs, w) \<in> set (rx_match a s)))"
    by (cases "rx_match a s") auto
  then show ?case
    by (simp only: Ahead.IH) auto
next
  case Eos
  show ?case by auto
qed

lemma rx_match_nonempty:
  "(rx_match r s \<noteq> []) = (\<exists>u rest. s = u @ rest \<and> rx_sem r u rest)"
proof -
  have "(rx_match r s \<noteq> []) = (\<exists>rest cs. (cs, rest) \<in> set (rx_match r s))"
    by (cases "rx_match r s") auto
  then show ?thesis
    by (simp only: rx_match_sem) blast
qed

lemma rx_exec_found:
  "(rx_exec r s \<noteq> None) = (\<exists>p t. s = p @ t \<and> rx_match r t \<noteq> [])"
proof (induction s)
  case Nil
  show ?case by (cases "rx_match r []") auto
next
  case (Cons c s)
  show ?case
  proof (cases "rx_match r (c # s)")
    case Nil
    have "(\<exists>p t. c # s = p @ t \<and> rx_match r t \<noteq> []) = (\<exists>p t. s = p @ t \<and> rx_match r t \<noteq> [])"
    proof
      assume "\<exists>p t. c # s = p @ t \<and> rx_match r t \<noteq> []"
      then obtain p t where pt: "c # s = p @ t" "rx_match r t \<noteq> []" by blast
      with Nil have "p \<noteq> []" by auto
      then obtain p' where "p = c # p'" "s = p' @ t"
        using pt(1) by (cases p) auto
      with pt(2) show "\<exists>p t. s = p @ t \<and> rx_match r t \<noteq> []" by blast
    next
      assume "\<exists>p t. s = p @ t \<and> rx_match r t \<noteq> []"
      then obtain p t where "s = p @ t" "rx_match r t \<noteq> []" by blast
      then have "c # s = (c # p) @ t \<and> rx_match r t \<noteq> []" by simp
      then show "\<exists>p t. c # s = p @ t \<and> rx_match r t \<noteq> []" by blast
    qed
    with Nil Cons show ?thesis by simp
  next
    case (Cons m ms)
    then have "c # s = [] @ (c # s) \<and> rx_match r (c # s) \<noteq> []" by simp
    then have "\<exists>p t. c # s = p @ t \<and> rx_match r t \<noteq> []" by blast
    with Cons show ?thesis by (auto split: prod.splits)
  qed
qed

lemma rx_sem_Cat_Cls:
  "rx_sem (Cat (Cls q) b) u rest = (\<exists>c w. u = c # w \<and> q c \<and> rx_sem b w rest)"
proof
  assume "rx_sem (Cat (Cls q) b) u rest"
  then obtain v w c where "u = v @ w" "v = [c]" "q c" "rx_sem b w rest"
    by auto
  then have "u = c # w \<and> q c \<and> rx_sem b w rest" by simp
  then show "\<exists>c w. u = c # w \<and> q c \<and> rx_sem b w rest" by blast
next
  assume "\<exists>c w. u = c # w \<and> q c \<and> rx_sem b w rest"
  then obtain c w where "u = c # w" "q c" "rx_sem b w rest" by blast
  then have "u = [c] @ w \<and> rx_sem (Cls q) [c] (w @ rest) \<and> rx_sem b w rest" by simp
  then show "rx_sem (Cat (Cls q) b) u rest"
    unfolding rx_sem.simps by blast
qed

lemma rx_sem_lit_i: "rx_sem (lit_i p) u rest = eq_i u p"
proof (induction p arbitrary: u)
  case Nil
  show ?case by (simp add: lit_i_def eq_i_def)
next
  case (Cons c p)
  have l: "lit_i (c # p) = Cat (chr_i c) (lit_i p)"
    by (simp add: lit_i_def)
  show ?case
    unfolding l chr_i_def rx_sem_Cat_Cls
    by (cases u) (auto simp: Cons eq_i_def)
qed

lemma rx_canon_fixed:
  assumes "rx_canon c = d" and "d \<notin> set ascii_upper"
  shows "c = d"
proof (cases "map_of (zip ascii_lower ascii_upper) c")
  case None
  with assms(1) show ?thesis by (simp add: rx_canon_def)
next
  case (Some u)
  then have "u \<in> set ascii_upper"
    by (meson map_of_SomeD set_zip_rightD)
  moreover have "u = d" using assms(1) Some by (simp add: rx_canon_def)
  ultimately show ?thesis using assms(2) by simp
qed

lemma rx_canon_id:
  assumes "c \<notin> set ascii_lower"
  shows "rx_canon c = c"
proof -
  have "length ascii_lower = length ascii_upper"
    by (simp add: ascii_lower_def ascii_upper_def)
  then have "map fst (zip ascii_lower ascii_upper) = ascii_lower"
    by (rule map_fst_zip)
  then have "fst ` set (zip ascii_lower ascii_upper) = set ascii_lower"
    by (metis set_map)
  then have "map_of (zip ascii_lower ascii_upper) c = None"
    using assms by (simp add: map_of_eq_None_iff)
  then show ?thesis by (simp add: rx_canon_def)
qed

lemma rx_canon_nonletter:
  assumes "p \<notin> set ascii_lower" "p \<notin> set ascii_upper"
  shows "(rx_canon c = rx_canon p) = (c = p)"
  using assms rx_canon_fixed [of c p] rx_canon_id [of p] by auto

lemma lower_char_id:
  assumes "c \<notin> set ascii_upper"
  shows "lower_char c = c"
proof -
  have "length ascii_upper = length ascii_lower"
    by (simp add: ascii_lower_def ascii_upper_def)
  then have "map fst (zip ascii_upper ascii_lower) = ascii_upper"
    by (rule map_fst_zip)
  then have "fst ` set (zip ascii_upper ascii_lower) = set ascii_upper"
    by (metis set_map)
  then have "map_of (zip ascii_upper ascii_lower) c = None"
    using assms by (simp add: map_of_eq_None_iff)
  then show ?thesis by (simp add: lower_char_def)
qed

section \<open>Properties of the extractor\<close>




lemma returned_iff: "returned a = (\<exists>fs. a = Inr (Some fs))"
  by (cases a rule: returned.cases) simp_all










text \<open>
  C3 (what the code does where the claim expects the scrape fallback). When the first
  extract call succeeds, extractWithRetry returns the payload as it is (a payload that
  is not a string or a list is serialized into one finding) and never reaches the test
  for the sentinel, so the scrape capability is not called, whatever the payload.
\<close>

theorem extract_success_returns_payload:
  "ex 0 = Resolved r \<Longrightarrow> ex_success r \<Longrightarrow> ex_data r = PJson j
   \<Longrightarrow> extractWithRetry stringify ex sc u retries
       = Inr [\<lparr>f_text = stringify (PJson j), f_source = u\<rparr>]"
  by (simp add: extractWithRetry_def extract_attempt_def)

theorem extract_success_returns_payload_witness:
  "js_includes (sample_stringify names_payload) sentinel
   \<and> extractWithRetry sample_stringify
        (\<lambda>i. Resolved \<lparr>ex_success = True, ex_data = names_payload\<rparr>)
        (\<lambda>i. Resolved \<lparr>sc_success = True, sc_markdown = ''page text''\<rparr>)
        ''https://example.com/page'' 2
      = Inr [\<lparr>f_text = ''{'' @ [dquote] @ ''names'' @ [dquote] @ '':[]}'',
              f_source = ''https://example.com/page''\<rparr>]"
proof -
  have inc: "js_includes (sample_stringify names_payload) sentinel"
    by (simp add: sample_stringify_def sentinel_def startsWith_def)
  have "extractWithRetry sample_stringify
        (\<lambda>i. Resolved \<lparr>ex_success = True, ex_data = names_payload\<rparr>)
        (\<lambda>i. Resolved \<lparr>sc_success = True, sc_markdown = ''page text''\<rparr>)
        ''https://example.com/page'' 2
      = Inr [\<lparr>f_text = sample_stringify names_payload, f_source = ''https://example.com/page''\<rparr>]"
    using extract_success_returns_payload
      [of "\<lambda>i. Resolved \<lparr>ex_success = True, ex_data = names_payload\<rparr>"
          "\<lparr>ex_success = True, ex_data = names_payload\<rparr>" "JObj [(''names'', JArr [])]"
          sample_stringify "\<lambda>i. Resolved \<lparr>sc_success = True, sc_markdown = ''page text''\<rparr>"
          "''https://example.com/page''" 2]
    by (simp add: names_payload_def)
  with inc show ?thesis
    by (simp add: sample_stringify_def)
qed

section \<open>Properties of the URL filter\<close>

text \<open>
  C10. filterUrls returns a subsequence of its input: the output is the input with some
  elements dropped, in the same order, so every URL of the output is one of the input
  and none occurs more often than in the input.
\<close>

theorem filterUrls_subsequence:
  "subseq (filterUrls new_URL urls) urls
   \<and> set (filterUrls new_URL urls) \<subseteq> set urls
   \<and> count_list (filterUrls new_URL urls) x \<le> count_list urls x"
proof -
  have c: "count_list (filter P xs) x \<le> count_list xs x" for P and xs :: "string list"
    by (induction xs) auto
  show ?thesis
    by (simp add: filterUrls_def c)
qed

theorem filterUrls_subsequence_witness:
  "subseq (filterUrls sample_URL [''https://www.reddit.com/r/x'', ''https://example.com/page''])
     [''https://www.reddit.com/r/x'', ''https://example.com/page'']
   \<and> filterUrls sample_URL [''https://www.reddit.com/r/x'', ''https://example.com/page'']
       = [''https://example.com/page'']"
proof -
  have "filterUrls sample_URL [''https://www.reddit.com/r/x'', ''https://example.com/page'']
       = [''https://example.com/page'']"
    by code_simp
  then show ?thesis
    using filterUrls_subsequence
      [of sample_URL "[''https://www.reddit.com/r/x'', ''https://example.com/page'']" "''x''"]
    by simp
qed

section \<open>Properties of the direct parse\<close>

lemma get_prop_field: "parsed \<noteq> JNull \<Longrightarrow> get_prop parsed k = Inr (field parsed k)"
  by (cases parsed) (simp_all add: field_def)

text \<open>
  C6 as stated fails. The text \<open>null\<close> is accepted by direct parsing, but reading a
  key of \<open>null\<close> throws inside the first \<open>try\<close>, so the later tiers run. And an
  \<open>analysis\<close> key that is present with a falsy value is not returned: the parsed
  object is.
\<close>

theorem direct_parse_null_counterexample:
  "direct_parse JNull = Inl TypeError
   \<and> parseAnalysisResponse sample_parse (\<lambda>t. JStr ''later tiers'') ''null'' = JStr ''later tiers''
   \<and> direct_parse (JObj [(''analysis'', JNull), (''summary'', JStr ''s'')])
       = Inr (JObj [(''analysis'', JNull), (''summary'', JStr ''s'')])"
  by (simp add: direct_parse_def after_analysis_def parseAnalysisResponse_def sample_parse_def)

text \<open>
  C6, amended. For every input that direct parsing accepts as a value other than
  \<open>null\<close>, parseAnalysisResponse settles in the direct tier, whatever the later tiers
  would do: it returns the value of the \<open>analysis\<close> key when that value is truthy,
  else the parsed value itself when it has a \<open>summary\<close> key, else the parsed value
  with \<open>subquestions\<close> filtered to its string items when that is a list, and the
  parsed value unchanged otherwise.
\<close>

theorem direct_parse_settles:
  "JSON_parse responseText = Some parsed \<Longrightarrow> parsed \<noteq> JNull \<Longrightarrow>
   parseAnalysisResponse JSON_parse later_tiers responseText =
     (if \<exists>a. field parsed ''analysis'' = Some a \<and> truthy a then the (field parsed ''analysis'')
      else if field parsed ''summary'' \<noteq> None then parsed
      else (case field parsed ''subquestions'' of
              Some (JArr qs) \<Rightarrow> set_prop parsed ''subquestions'' (JArr (filter is_string qs))
            | _ \<Rightarrow> parsed))"
  by (auto simp: parseAnalysisResponse_def direct_parse_def after_analysis_def get_prop_field
           split: option.splits json.splits)

theorem direct_parse_settles_witness:
  "parseAnalysisResponse sample_parse (\<lambda>t. JStr ''later tiers'') ''0'' = JNum 0"
  using direct_parse_settles [of sample_parse "''0''" "JNum 0" "\<lambda>t. JStr ''later tiers''"]
  by (simp add: sample_parse_def field_def)

section \<open>Properties of the research loop\<close>

lemma research_loop_steps:
  "research_loop rq envs st = (n, final) \<Longrightarrow>
     currentDepth final = currentDepth st + n
     \<and> (currentDepth st \<le> maxDepth \<longrightarrow> currentDepth final \<le> maxDepth)
     \<and> (\<forall>i<n. he_now (envs (currentDepth st + i)) - rq_startTime rq < timeLimit)"
proof (induction rq envs st arbitrary: n final rule: research_loop.induct)
  case (1 rq envs st)
  show ?case
  proof (cases "currentDepth st < maxDepth \<and> \<not> he_now (envs (currentDepth st)) - rq_startTime rq \<ge> timeLimit")
    case False
    then have "research_loop rq envs st = (0, st)"
      by (auto simp: research_loop.simps [of rq envs st])
    with "1.prems" show ?thesis by simp
  next
    case True
    obtain fl st' where h: "hop rq (envs (currentDepth st)) st = (fl, st')"
      by (cases "hop rq (envs (currentDepth st)) st")
    have d: "currentDepth st' = Suc (currentDepth st)"
      using hop_depth [of rq "envs (currentDepth st)" st] h by simp
    show ?thesis
    proof (cases fl)
      case Break
      then have "research_loop rq envs st = (1, st')"
        using True h by (simp add: research_loop.simps [of rq envs st])
      with "1.prems" d True show ?thesis by auto
    next
      case Continue
      obtain m fin where r: "research_loop rq envs st' = (m, fin)"
        by (cases "research_loop rq envs st'")
      have eq: "research_loop rq envs st = (Suc m, fin)"
        using True h Continue r by (simp add: research_loop.simps [of rq envs st])
      have ih: "currentDepth fin = currentDepth st' + m
          \<and> (currentDepth st' \<le> maxDepth \<longrightarrow> currentDepth fin \<le> maxDepth)
          \<and> (\<forall>i<m. he_now (envs (currentDepth st' + i)) - rq_startTime rq < timeLimit)"
        using "1.IH" [of fl st' m fin] True Continue h [symmetric] r by blast
      have n: "n = Suc m" "final = fin" using eq "1.prems" by simp_all
      have t: "\<forall>i<Suc m. he_now (envs (currentDepth st + i)) - rq_startTime rq < timeLimit"
      proof (intro allI impI)
        fix i assume "i < Suc m"
        show "he_now (envs (currentDepth st + i)) - rq_startTime rq < timeLimit"
        proof (cases i)
          case 0
          then show ?thesis using True by simp
        next
          case (Suc j)
          then show ?thesis using ih \<open>i < Suc m\<close> d by simp
        qed
      qed
      show ?thesis using ih d True n t by simp
    qed
  qed
qed


text \<open>
  C2. The research loop runs at most maxDepth = 6 hops. currentDepth starts at 0, every
  hop adds exactly 1 to it, at the exit it equals the number of hops that ran, and it
  never exceeds maxDepth. The elapsed time is tested at the top of each hop: a hop runs
  only when it is below timeLimit, and when it has reached timeLimit the loop exits with
  the state unchanged.
\<close>

theorem research_loop_terminates:
  "fst (research_loop rq envs initial_state) \<le> maxDepth \<and> maxDepth = 6
   \<and> currentDepth initial_state = 0
   \<and> currentDepth (snd (hop rq env st)) = currentDepth st + 1
   \<and> currentDepth (snd (research_loop rq envs initial_state)) = fst (research_loop rq envs initial_state)
   \<and> (currentDepth st \<le> maxDepth \<longrightarrow> currentDepth (snd (research_loop rq envs st)) \<le> maxDepth)
   \<and> (\<forall>i < fst (research_loop rq envs initial_state).
         he_now (envs i) - rq_startTime rq < timeLimit)
   \<and> (timeLimit \<le> he_now (envs (currentDepth st)) - rq_startTime rq
        \<longrightarrow> research_loop rq envs st = (0, st))"
proof -
  obtain n final where r: "research_loop rq envs initial_state = (n, final)"
    by (cases "research_loop rq envs initial_state")
  have z: "currentDepth initial_state = 0"
    by (simp add: initial_state_def)
  have a: "currentDepth final = n" "currentDepth final \<le> maxDepth"
    "\<forall>i<n. he_now (envs i) - rq_startTime rq < timeLimit"
    using research_loop_steps [OF r] z by simp_all
  obtain m fin where r': "research_loop rq envs st = (m, fin)"
    by (cases "research_loop rq envs st")
  have b: "currentDepth st \<le> maxDepth \<longrightarrow> currentDepth fin \<le> maxDepth"
    using research_loop_steps [OF r'] by blast
  have c: "timeLimit \<le> he_now (envs (currentDepth st)) - rq_startTime rq
        \<longrightarrow> research_loop rq envs st = (0, st)"
    by (simp add: research_loop.simps [of rq envs st])
  show ?thesis
    using a b c z r r' by (simp add: hop_depth maxDepth_def)
qed

theorem research_loop_terminates_witness:
  "research_loop sample_request (\<lambda>d. env_search_down) initial_state
     = (1, snd (hop sample_request env_search_down initial_state))
   \<and> currentDepth (snd (hop sample_request env_search_down initial_state)) = 1
   \<and> he_now env_search_down - rq_startTime sample_request < timeLimit
   \<and> timeLimit \<le> he_now env_late - rq_startTime sample_request
   \<and> research_loop sample_request (\<lambda>d. env_late) initial_state = (0, initial_state)"
proof -
  have run: "research_loop sample_request (\<lambda>d. env_search_down) initial_state
     = (1, snd (hop sample_request env_search_down initial_state))"
    by code_simp
  have late: "timeLimit \<le> he_now ((\<lambda>d. env_late) (currentDepth initial_state)) - rq_startTime sample_request"
    by (simp add: env_late_def sample_request_def timeLimit_def)
  have early: "he_now env_search_down - rq_startTime sample_request < timeLimit"
    by (simp add: env_search_down_def sample_request_def timeLimit_def)
  show ?thesis
    using run late early
      research_loop_terminates [of sample_request "\<lambda>d. env_search_down" env_search_down initial_state]
      research_loop_terminates [of sample_request "\<lambda>d. env_late" env_late initial_state]
    by simp
qed

lemma select_topic_keeps:
  "failedAttempts (snd (select_topic rq env st)) = failedAttempts st
   \<and> maxFailedAttempts (snd (select_topic rq env st)) = maxFailedAttempts st
   \<and> urlFrequencyMap (snd (select_topic rq env st)) = urlFrequencyMap st
   \<and> processedUrls (snd (select_topic rq env st)) = processedUrls st"
  by (simp add: select_topic_def split: outcome.split)

lemma count_failure_counts:
  "failedAttempts (snd (count_failure st)) = failedAttempts st + 1
   \<and> maxFailedAttempts (snd (count_failure st)) = maxFailedAttempts st
   \<and> (fst (count_failure st) = Break) = (maxFailedAttempts st \<le> failedAttempts st + 1)"
  by (simp add: count_failure_def Let_def)

lemma apply_analysis_counts:
  "failedAttempts (snd (apply_analysis t a st)) = failedAttempts st
   \<and> maxFailedAttempts (snd (apply_analysis t a st)) = maxFailedAttempts st"
  by (simp add: apply_analysis_def Let_def)

lemma hop_counts:
  "failedAttempts (snd (hop rq env st)) = failedAttempts st + (if hop_failed env st then 1 else 0)
   \<and> maxFailedAttempts (snd (hop rq env st)) = maxFailedAttempts st
   \<and> (hop_failed env st \<and> maxFailedAttempts st \<le> failedAttempts st + 1 \<longrightarrow> fst (hop rq env st) = Break)"
proof -
  obtain topic st1
    where sel: "select_topic rq env (st\<lparr>currentDepth := currentDepth st + 1\<rparr>) = (topic, st1)"
    by (cases "select_topic rq env (st\<lparr>currentDepth := currentDepth st + 1\<rparr>)")
  have k: "failedAttempts st1 = failedAttempts st" "maxFailedAttempts st1 = maxFailedAttempts st"
    "urlFrequencyMap st1 = urlFrequencyMap st" "processedUrls st1 = processedUrls st"
    using select_topic_keeps [of rq env "st\<lparr>currentDepth := currentDepth st + 1\<rparr>"] sel by simp_all
  show ?thesis
    unfolding hop_def sel hop_failed_def
    by (simp add: Let_def count_failure_counts apply_analysis_counts k split: option.split)
qed

lemma research_loop_counts:
  "research_loop rq envs st = (n, final) \<Longrightarrow>
     failedAttempts st \<le> failedAttempts final \<and> maxFailedAttempts final = maxFailedAttempts st"
proof (induction rq envs st arbitrary: n final rule: research_loop.induct)
  case (1 rq envs st)
  show ?case
  proof (cases "currentDepth st < maxDepth \<and> \<not> he_now (envs (currentDepth st)) - rq_startTime rq \<ge> timeLimit")
    case False
    then have "research_loop rq envs st = (0, st)"
      by (auto simp: research_loop.simps [of rq envs st])
    with "1.prems" show ?thesis by simp
  next
    case True
    obtain fl st' where h: "hop rq (envs (currentDepth st)) st = (fl, st')"
      by (cases "hop rq (envs (currentDepth st)) st")
    have c: "failedAttempts st \<le> failedAttempts st'" "maxFailedAttempts st' = maxFailedAttempts st"
      using hop_counts [of rq "envs (currentDepth st)" st] h by simp_all
    show ?thesis
    proof (cases fl)
      case Break
      then have "research_loop rq envs st = (1, st')"
        using True h by (simp add: research_loop.simps [of rq envs st])
      with "1.prems" c show ?thesis by auto
    next
      case Continue
      obtain m fin where r: "research_loop rq envs st' = (m, fin)"
        by (cases "research_loop rq envs st'")
      have eq: "research_loop rq envs st = (Suc m, fin)"
        using True h Continue r by (simp add: research_loop.simps [of rq envs st])
      have ih: "failedAttempts st' \<le> failedAttempts fin \<and> maxFailedAttempts fin = maxFailedAttempts st'"
        using "1.IH" [of fl st' m fin] True Continue h [symmetric] r by blast
      show ?thesis using ih c eq "1.prems" by simp
    qed
  qed
qed


text \<open>
  C8 as stated fails in both directions. A hop whose five searches all succeed and list
  nothing adds 1 to failedAttempts, with no search failure and no null analysis; and a
  hop whose first query fails after all retries adds nothing, since the other queries
  list an unseen URL.
\<close>

theorem failedAttempts_counterexample:
  "map (\<lambda>q. searchWithRetry (he_search env_no_hits q) 3) [0..<5]
     = replicate 5 (Inr \<lparr>sr_success = True, sr_data = []\<rparr>)
   \<and> he_analysis env_no_hits = Some sample_analysis
   \<and> failedAttempts initial_state = 0
   \<and> failedAttempts (snd (hop sample_request env_no_hits initial_state)) = 1
   \<and> searchWithRetry (he_search env_search_down 0) 3 = Inl (Error ''down'')
   \<and> failedAttempts (snd (hop sample_request env_search_down initial_state)) = 0"
  by code_simp

text \<open>
  C8, amended. In the research loop, failedAttempts is incremented exactly when
  (a) the hop finds no unseen URL to process after its searches, or (b) the analysis
  result is falsy; it is never reset or decremented during a request, and reaching
  maxFailedAttempts (3) breaks the loop.
\<close>

theorem failedAttempts_counts:
  "failedAttempts (snd (hop rq env st)) = failedAttempts st + (if hop_failed env st then 1 else 0)
   \<and> (hop_failed env st \<and> maxFailedAttempts st \<le> failedAttempts st + 1
        \<longrightarrow> fst (hop rq env st) = Break)
   \<and> failedAttempts st \<le> failedAttempts (snd (research_loop rq envs st))
   \<and> maxFailedAttempts (snd (research_loop rq envs st)) = maxFailedAttempts st
   \<and> maxFailedAttempts initial_state = 3"
proof -
  obtain n final where r: "research_loop rq envs st = (n, final)"
    by (cases "research_loop rq envs st")
  show ?thesis
    using hop_counts [of rq env st] research_loop_counts [OF r] r
    by (simp add: initial_state_def)
qed

theorem failedAttempts_counts_witness:
  "hop_failed env_no_hits initial_state
   \<and> failedAttempts (snd (hop sample_request env_no_hits initial_state)) = 1
   \<and> hop_failed env_no_hits (initial_state\<lparr>failedAttempts := 2\<rparr>)
   \<and> fst (hop sample_request env_no_hits (initial_state\<lparr>failedAttempts := 2\<rparr>)) = Break"
proof -
  have f1: "hop_failed env_no_hits initial_state"
    by code_simp
  have f2: "hop_failed env_no_hits (initial_state\<lparr>failedAttempts := 2\<rparr>)"
    by code_simp
  have z: "failedAttempts initial_state = 0" "maxFailedAttempts initial_state = 3"
    by (simp_all add: initial_state_def)
  show ?thesis
    using f1 f2 z
      failedAttempts_counts [of sample_request env_no_hits initial_state "\<lambda>d. env_no_hits"]
      failedAttempts_counts [of sample_request env_no_hits "initial_state\<lparr>failedAttempts := 2\<rparr>"
        "\<lambda>d. env_no_hits"]
    by simp
qed

section \<open>Properties of the URL ranker\<close>

lemma js_insert_insort_key:
  "js_insert by_frequency x ys = insort_key (\<lambda>e. - int (frequency e)) x ys"
  by (induction ys) (simp_all add: by_frequency_def)

lemma js_sort_sort_key:
  "js_sort by_frequency xs = sort_key (\<lambda>e. - int (frequency e)) xs"
proof -
  have "js_insert by_frequency = insort_key (\<lambda>e. - int (frequency e))"
    by (intro ext) (rule js_insert_insort_key)
  then show ?thesis
    by (simp add: js_sort_def sort_key_def)
qed

lemma js_sort_descending:
  "sorted_wrt (\<lambda>a b. frequency b \<le> frequency a) (js_sort by_frequency xs)"
proof -
  have "sorted (map (\<lambda>e. - int (frequency e)) (sort_key (\<lambda>e. - int (frequency e)) xs))"
    by (rule sorted_sort_key)
  then show ?thesis
    by (simp add: js_sort_sort_key sorted_map)
qed

lemma js_sort_stable:
  "filter (\<lambda>e. frequency e = k) (js_sort by_frequency xs) = filter (\<lambda>e. frequency e = k) xs"
proof -
  have "filter (\<lambda>e. - int (frequency e) = - int k) (sort_key (\<lambda>e. - int (frequency e)) xs)
        = filter (\<lambda>e. - int (frequency e) = - int k) xs"
    by (rule sort_key_stable)
  then show ?thesis
    by (simp add: js_sort_sort_key)
qed

lemma two_responses:
  assumes "distinct [A, B, C, D]"
  shows "getUrlsToProcess (record_hits (record_hits [] (hits_of [A, B, C])) (hits_of [B, C, D])) {}
         = [B, C, A]"
proof -
  have ne: "A \<noteq> B" "A \<noteq> C" "A \<noteq> D" "B \<noteq> C" "B \<noteq> D" "C \<noteq> D"
    "B \<noteq> A" "C \<noteq> A" "D \<noteq> A" "C \<noteq> B" "D \<noteq> B" "D \<noteq> C"
    using assms by auto
  have first: "record_hits [] (hits_of [A, B, C])
      = [(A, \<lparr>url = A, frequency = 1, title = None\<rparr>), (B, \<lparr>url = B, frequency = 1, title = None\<rparr>),
         (C, \<lparr>url = C, frequency = 1, title = None\<rparr>)]"
    by (simp add: record_hits_def record_hit_def hits_of_def ne)
  have second: "record_hits (record_hits [] (hits_of [A, B, C])) (hits_of [B, C, D])
      = [(A, \<lparr>url = A, frequency = 1, title = None\<rparr>), (B, \<lparr>url = B, frequency = 2, title = None\<rparr>),
         (C, \<lparr>url = C, frequency = 2, title = None\<rparr>), (D, \<lparr>url = D, frequency = 1, title = None\<rparr>)]"
    unfolding first by (simp add: record_hits_def record_hit_def hits_of_def ne)
  show ?thesis
    unfolding second by (simp add: getUrlsToProcess_def js_sort_def by_frequency_def)
qed

text \<open>
  C5. getUrlsToProcess returns the first 3 URLs of the entries of the map, sorted by
  frequency in descending order, entries of equal frequency staying in insertion order,
  after the URLs in processedUrls are dropped. After the two search responses
  \<open>[A, B, C]\<close> and \<open>[B, C, D]\<close>, with nothing processed, it returns \<open>[B, C, A]\<close>,
  the first of the two answers the claim allows.
\<close>

theorem getUrlsToProcess_ranking:
  "\<exists>ranked.
      getUrlsToProcess m processed = take 3 (filter (\<lambda>u. u \<notin> processed) (map url ranked))
      \<and> mset ranked = mset (map snd m)
      \<and> sorted_wrt (\<lambda>a b. frequency b \<le> frequency a) ranked
      \<and> (\<forall>k. filter (\<lambda>e. frequency e = k) ranked = filter (\<lambda>e. frequency e = k) (map snd m))
      \<and> (distinct [A, B, C, D] \<longrightarrow>
            getUrlsToProcess (record_hits (record_hits [] (hits_of [A, B, C])) (hits_of [B, C, D])) {}
              = [B, C, A])"
proof (intro exI conjI)
  show "getUrlsToProcess m processed
        = take 3 (filter (\<lambda>u. u \<notin> processed) (map url (js_sort by_frequency (map snd m))))"
    by (simp add: getUrlsToProcess_def)
  show "mset (js_sort by_frequency (map snd m)) = mset (map snd m)"
    by (simp add: js_sort_sort_key)
  show "sorted_wrt (\<lambda>a b. frequency b \<le> frequency a) (js_sort by_frequency (map snd m))"
    by (rule js_sort_descending)
  show "\<forall>k. filter (\<lambda>e. frequency e = k) (js_sort by_frequency (map snd m))
            = filter (\<lambda>e. frequency e = k) (map snd m)"
    by (simp add: js_sort_stable)
  show "distinct [A, B, C, D] \<longrightarrow>
            getUrlsToProcess (record_hits (record_hits [] (hits_of [A, B, C])) (hits_of [B, C, D])) {}
              = [B, C, A]"
    using two_responses by blast
qed

theorem getUrlsToProcess_ranking_witness:
  "getUrlsToProcess (record_hits (record_hits [] (hits_of [''A'', ''B'', ''C''])) (hits_of [''B'', ''C'', ''D''])) {}
     = [''B'', ''C'', ''A'']"
  using getUrlsToProcess_ranking [of "[]" "{}" "''A''" "''B''" "''C''" "''D''"]
  by simp

section \<open>What the URL filter keeps\<close>

lemma js_includes_sublist: "js_includes s p = sublist p s"
proof (induction s)
  case Nil
  show ?case by (auto simp: sublist_def)
next
  case (Cons c s)
  have "startsWith (c # s) p = prefix p (c # s)"
    unfolding startsWith_def prefix_def
    by (metis append_eq_conv_conj)
  then show ?case
    by (simp add: Cons sublist_Cons_right)
qed

lemma doc_ext_sem:
  "rx_sem doc_ext_rx u rest
   = (rest = [] \<and> (\<exists>e. u = ''.'' @ e \<and> (eq_i e ''pdf'' \<or> eq_i e ''doc'' \<or> eq_i e ''docx'')))"
proof -
  have dot: "(rx_canon c = rx_canon CHR ''.'') = (c = CHR ''.'')" for c
    by (rule rx_canon_nonletter) (simp_all add: ascii_lower_def ascii_upper_def)
  have "rx_sem doc_ext_rx u rest
        = (\<exists>c w. u = c # w \<and> c = CHR ''.''
             \<and> rx_sem (Cat (Alt (lit_i ''pdf'') (Alt (lit_i ''doc'') (lit_i ''docx''))) Eos) w rest)"
    unfolding doc_ext_rx_def chr_i_def rx_sem_Cat_Cls by (simp add: dot)
  also have "\<dots> = (rest = [] \<and> (\<exists>e. u = ''.'' @ e \<and> (eq_i e ''pdf'' \<or> eq_i e ''doc'' \<or> eq_i e ''docx'')))"
    by (auto simp: rx_sem_lit_i)
  finally show ?thesis .
qed

lemma doc_ext_found:
  "(rx_exec doc_ext_rx u \<noteq> None)
   = (\<exists>p e. u = p @ ''.'' @ e \<and> (eq_i e ''pdf'' \<or> eq_i e ''doc'' \<or> eq_i e ''docx''))"
  unfolding rx_exec_found rx_match_nonempty doc_ext_sem
  by (auto; force)

lemma keep_url_iff:
  "keep_url new_URL u =
     (\<exists>parts. new_URL u = Some parts
        \<and> (\<forall>blocked \<in> set blockedDomains. \<not> sublist blocked (hostname parts))
        \<and> \<not> (\<exists>p e. u = p @ ''.'' @ e \<and> (eq_i e ''pdf'' \<or> eq_i e ''doc'' \<or> eq_i e ''docx'')))"
proof (cases "new_URL u")
  case None
  then show ?thesis by (simp add: keep_url_def)
next
  case (Some parts)
  show ?thesis
  proof (cases "rx_exec doc_ext_rx u = None")
    case True
    then have "\<not> (\<exists>p e. u = p @ ''.'' @ e \<and> (eq_i e ''pdf'' \<or> eq_i e ''doc'' \<or> eq_i e ''docx''))"
      using doc_ext_found [of u] by simp
    with Some True show ?thesis
      by (simp add: keep_url_def Let_def js_includes_sublist list_ex_iff)
  next
    case False
    then have "\<exists>p e. u = p @ ''.'' @ e \<and> (eq_i e ''pdf'' \<or> eq_i e ''doc'' \<or> eq_i e ''docx'')"
      using doc_ext_found [of u] by simp
    with Some False show ?thesis
      by (simp add: keep_url_def Let_def)
  qed
qed

text \<open>
  C7 as stated fails: the extension is tested on the whole URL string, not on the path.
  A URL whose path ends in \<open>.pdf\<close> and that goes on with a query is kept, and a URL
  whose query ends in \<open>.pdf\<close>, with another path, is rejected.
\<close>

theorem filterUrls_path_counterexample:
  "filterUrls sample_URL [''https://example.com/a.pdf?dl=1''] = [''https://example.com/a.pdf?dl=1'']
   \<and> sample_URL ''https://example.com/a.pdf?dl=1''
       = Some \<lparr>hostname = ''example.com'', pathname = ''/a.pdf''\<rparr>
   \<and> filterUrls sample_URL [''https://example.com/view?f=a.pdf''] = []
   \<and> sample_URL ''https://example.com/view?f=a.pdf''
       = Some \<lparr>hostname = ''example.com'', pathname = ''/view''\<rparr>"
  by code_simp

text \<open>
  C7, amended. filterUrls keeps exactly those URLs that can be parsed, whose host
  contains none of the nine blocked domains, and whose URL string (the whole string, with
  query and fragment) does not end in \<open>.pdf\<close>, \<open>.doc\<close> or \<open>.docx\<close>, in any
  case of the letters; all other URLs are rejected.
\<close>

theorem filterUrls_keeps:
  "filterUrls new_URL urls =
     filter (\<lambda>u. \<exists>parts. new_URL u = Some parts
                   \<and> (\<forall>blocked \<in> set blockedDomains. \<not> sublist blocked (hostname parts))
                   \<and> \<not> (\<exists>p e. u = p @ ''.'' @ e \<and> (eq_i e ''pdf'' \<or> eq_i e ''doc'' \<or> eq_i e ''docx'')))
       urls"
  unfolding filterUrls_def using keep_url_iff [of new_URL] by presburger

theorem filterUrls_keeps_witness:
  "filterUrls sample_URL
     [''https://example.com/a.pdf?dl=1'', ''https://example.com/view?f=a.pdf'',
      ''https://example.com/page'', ''https://www.reddit.com/r/x'', ''not a url'']
   = [''https://example.com/a.pdf?dl=1'', ''https://example.com/page'']"
proof -
  have "filterUrls sample_URL
     [''https://example.com/a.pdf?dl=1'', ''https://example.com/view?f=a.pdf'',
      ''https://example.com/page'', ''https://www.reddit.com/r/x'', ''not a url'']
   = [''https://example.com/a.pdf?dl=1'', ''https://example.com/page'']"
    by code_simp
  then show ?thesis
    using filterUrls_keeps [of sample_URL
     "[''https://example.com/a.pdf?dl=1'', ''https://example.com/view?f=a.pdf'',
      ''https://example.com/page'', ''https://www.reddit.com/r/x'', ''not a url'']"]
    by simp
qed

section \<open>Properties of the formatter\<close>

lemma split_nl_nonempty: "split_nl s \<noteq> []"
  by (induction s) (auto split: list.splits)

lemma join_split_nl: "join_nl (split_nl s) = s"
proof (induction s)
  case Nil
  show ?case by simp
next
  case (Cons c s)
  obtain l ls where sp: "split_nl s = l # ls"
    using split_nl_nonempty [of s] by (cases "split_nl s") auto
  show ?case
    using Cons sp by (cases ls) auto
qed

lemma split_nl_three: "split_nl s = [a, b, c] \<Longrightarrow> s = a @ [newline] @ b @ [newline] @ c"
  using join_split_nl [of s] by simp

lemma trim_id:
  assumes "s \<noteq> []" "\<not> js_space (hd s)" "\<not> js_space (last s)"
  shows "trim s = s"
proof -
  have 1: "dropWhile js_space s = s"
    using assms(1,2) by (cases s) auto
  have "rev s \<noteq> []" "\<not> js_space (hd (rev s))"
    using assms(1,3) by (simp_all add: hd_rev)
  then have 2: "dropWhile js_space (rev s) = rev s"
    by (cases "rev s") auto
  show ?thesis
    by (simp add: trim_def 1 2)
qed

lemma trim_ends:
  assumes "trim s \<noteq> []"
  shows "\<not> js_space (hd (trim s)) \<and> \<not> js_space (last (trim s))"
proof -
  let ?a = "dropWhile js_space s"
  let ?b = "dropWhile js_space (rev ?a)"
  have b: "?b \<noteq> []" using assms by (simp add: trim_def)
  then have lastb: "\<not> js_space (hd ?b)"
    by (rule hd_dropWhile)
  have a: "?a \<noteq> []"
  proof
    assume "?a = []"
    then have "?b = []" by (metis dropWhile.simps(1) rev.simps(1))
    with b show False by blast
  qed
  then have hda: "\<not> js_space (hd ?a)"
    by (rule hd_dropWhile)
  have "last ?b = last (rev ?a)"
    using b by (metis last_appendR takeWhile_dropWhile_id)
  then have "last ?b = hd ?a"
    using a by (simp add: last_rev)
  then show ?thesis
    using b lastb hda by (simp add: trim_def hd_rev last_rev)
qed

lemma trim_trim: "trim (trim s) = trim s"
proof (cases "trim s = []")
  case True
  have "trim [] = []" by (simp add: trim_def)
  with True show ?thesis by simp
next
  case False
  then show ?thesis using trim_ends [OF False] by (intro trim_id) simp_all
qed

lemma trim_keeps_label:
  assumes "l \<noteq> []" "\<not> js_space (hd l)" "\<not> js_space (last l)"
  shows "\<exists>t. trim (l @ s) = l @ t"
proof -
  have 1: "dropWhile js_space (l @ s) = l @ s"
    using assms(1,2) by (cases l) auto
  have "dropWhile js_space (rev l) = rev l"
    using assms(1,3) by (cases "rev l") (auto simp: hd_rev)
  then have "\<exists>t. dropWhile js_space (rev s @ rev l) = t @ rev l"
    by (metis dropWhile_append dropWhile_append1 append_Nil
        dropWhile_append2 dropWhile_append3 dropWhile_eq_Nil_conv)
  then obtain t where "dropWhile js_space (rev (l @ s)) = t @ rev l"
    by auto
  then have "trim (l @ s) = l @ rev t"
    by (simp add: trim_def 1)
  then show ?thesis by blast
qed

lemma startsWith_label:
  assumes "l \<noteq> []" "\<not> js_space (hd l)" "\<not> js_space (last l)"
  shows "startsWith (toLowerCase (trim (l @ s))) (toLowerCase l)"
proof -
  obtain t where "trim (l @ s) = l @ t"
    using trim_keeps_label [OF assms] by blast
  then show ?thesis
    by (simp add: startsWith_def toLowerCase_def)
qed

lemma lower_space: "js_space c \<Longrightarrow> lower_char c = c"
  by (rule lower_char_id) (auto simp: js_space_def ascii_upper_def)

lemma startsWith_hd:
  assumes sw: "startsWith (toLowerCase s) (c # p)" and nc: "\<not> js_space c"
  shows "s \<noteq> [] \<and> \<not> js_space (hd s)"
proof (cases s)
  case Nil
  with sw show ?thesis by (simp add: startsWith_def toLowerCase_def)
next
  case (Cons a t)
  have "lower_char a = c"
    using sw Cons by (simp add: startsWith_def toLowerCase_def)
  then have "\<not> js_space a"
    using nc lower_space [of a] by auto
  with Cons show ?thesis by simp
qed

lemma rx_exec_some:
  "rx_exec r s = Some cs \<Longrightarrow> \<exists>p t rest. s = p @ t \<and> (cs, rest) \<in> set (rx_match r t)"
proof (induction s)
  case Nil
  then have "\<exists>rest. (cs, rest) \<in> set (rx_match r [])"
    by (cases "rx_match r []") (auto split: prod.splits)
  then show ?case by blast
next
  case (Cons c s)
  show ?case
  proof (cases "rx_match r (c # s)")
    case Nil
    with Cons.prems have "rx_exec r s = Some cs" by simp
    then obtain p t rest where "s = p @ t" "(cs, rest) \<in> set (rx_match r t)"
      using Cons.IH by blast
    then have "c # s = (c # p) @ t \<and> (cs, rest) \<in> set (rx_match r t)" by simp
    then show ?thesis by blast
  next
    case (Cons m ms)
    with Cons.prems have "\<exists>rest. (cs, rest) \<in> set (rx_match r (c # s))"
      by (cases m) auto
    then have "\<exists>rest. c # s = [] @ (c # s) \<and> (cs, rest) \<in> set (rx_match r (c # s))" by simp
    then show ?thesis by blast
  qed
qed

lemma cat_mem:
  "((cs, rest) \<in> set (rx_match (Cat a b) s))
   = (\<exists>c1 r1 c2. (c1, r1) \<in> set (rx_match a s) \<and> (c2, rest) \<in> set (rx_match b r1) \<and> cs = c1 @ c2)"
  by (auto; force)

lemma grp_mem:
  "((cs, rest) \<in> set (rx_match (Grp a) s))
   = (\<exists>cs'. (cs', rest) \<in> set (rx_match a s) \<and> cs = take (length s - length rest) s # cs')"
  by (auto; force)

lemma lit_caps: "(cs, rest) \<in> set (rx_match (lit_i p) s) \<Longrightarrow> cs = []"
proof (induction p arbitrary: s cs)
  case Nil
  then show ?case by (simp add: lit_i_def)
next
  case (Cons c p)
  have l: "lit_i (c # p) = Cat (chr_i c) (lit_i p)"
    by (simp add: lit_i_def)
  from Cons.prems obtain c1 r1 c2 where
    m: "(c1, r1) \<in> set (rx_match (chr_i c) s)" "(c2, rest) \<in> set (rx_match (lit_i p) r1)" "cs = c1 @ c2"
    unfolding l cat_mem by blast
  have "c1 = []" using m(1) by (cases s) (auto simp: chr_i_def split: if_splits)
  moreover have "c2 = []" using m(2) by (rule Cons.IH)
  ultimately show ?case using m(3) by simp
qed

lemma group_text:
  assumes "(cs, rest) \<in> set (rx_match (Grp a) s)"
  shows "\<exists>g cs'. cs = g # cs' \<and> s = g @ rest \<and> rx_sem a g rest"
proof -
  obtain cs' where m: "(cs', rest) \<in> set (rx_match a s)"
    and cs: "cs = take (length s - length rest) s # cs'"
    using assms unfolding grp_mem by blast
  obtain u where u: "s = u @ rest" "rx_sem a u rest"
    using m rx_match_sem [of rest a s] by blast
  then have "take (length s - length rest) s = u" by simp
  with cs u show ?thesis by blast
qed

lemma percent_fixed: "(rx_canon c = rx_canon CHR ''%'') = (c = CHR ''%'')"
  by (rule rx_canon_nonletter) (simp_all add: ascii_lower_def ascii_upper_def)

lemma confidence_capture:
  assumes "group1 (rx_exec confidence_rx x) = Some g"
  shows "\<exists>d. g = d @ ''%'' \<and> list_all js_digit d \<and> 1 \<le> length d \<and> length d \<le> 3"
proof -
  obtain cs where ex: "rx_exec confidence_rx x = Some cs" and g: "group1 (Some cs) = Some g"
    using assms by (cases "rx_exec confidence_rx x") (auto simp: group1_def)
  obtain p t rest where "(cs, rest) \<in> set (rx_match confidence_rx t)"
    using rx_exec_some [OF ex] by blast
  then obtain c1 r1 c23 where
    m1: "(c1, r1) \<in> set (rx_match (lit_i ''confidence:'') t)"
    and m23: "(c23, rest) \<in> set (rx_match (Cat (Star js_space)
                (Grp (Cat (Rep 1 3 js_digit) (chr_i CHR ''%'')))) r1)"
    and cs1: "cs = c1 @ c23"
    unfolding confidence_rx_def cat_mem [of cs rest "lit_i ''confidence:''"] by blast
  obtain c2 r2 c3 where
    m2: "(c2, r2) \<in> set (rx_match (Star js_space) r1)"
    and m3: "(c3, rest) \<in> set (rx_match (Grp (Cat (Rep 1 3 js_digit) (chr_i CHR ''%''))) r2)"
    and cs2: "c23 = c2 @ c3"
    using m23 unfolding cat_mem [of c23 rest "Star js_space"] by blast
  have "c1 = []" using m1 by (rule lit_caps)
  moreover have "c2 = []" using m2 by auto
  ultimately have parts: "cs = c3" using cs1 cs2 by simp
  obtain g' cs' where gt: "c3 = g' # cs'" "rx_sem (Cat (Rep 1 3 js_digit) (chr_i CHR ''%'')) g' rest"
    using group_text [OF m3] by blast
  have "g' = g"
    using g parts gt(1) by (simp add: group1_def)
  then have "rx_sem (Cat (Rep 1 3 js_digit) (chr_i CHR ''%'')) g rest"
    using gt(2) by simp
  then show ?thesis
    by (auto simp: chr_i_def percent_fixed)
qed

lemma eq_i_100: "eq_i v ''100'' \<Longrightarrow> v = ''100''"
proof -
  assume e: "eq_i v ''100''"
  have one: "rx_canon c = rx_canon CHR ''1'' \<Longrightarrow> c = CHR ''1''" for c
    using rx_canon_nonletter [of "CHR ''1''" c] by (simp add: ascii_lower_def ascii_upper_def)
  have zero: "rx_canon c = rx_canon CHR ''0'' \<Longrightarrow> c = CHR ''0''" for c
    using rx_canon_nonletter [of "CHR ''0''" c] by (simp add: ascii_lower_def ascii_upper_def)
  from e obtain a b c where v: "v = [a, b, c]"
    "rx_canon a = rx_canon CHR ''1''" "rx_canon b = rx_canon CHR ''0''" "rx_canon c = rx_canon CHR ''0''"
    by (auto simp: eq_i_def map_eq_Cons_conv)
  then show ?thesis using one zero by simp
qed

lemma confidence_line_shape:
  assumes "rx_test_anchored confidence_line_rx l"
  shows "confidence_shape l"
proof -
  obtain u rest where l: "l = u @ rest" and sem: "rx_sem confidence_line_rx u rest"
    using assms by (auto simp: rx_test_anchored_def rx_match_nonempty)
  from sem obtain v1 v2 v3 v4 where
    u: "u = v1 @ v2 @ v3 @ v4" and
    v1: "eq_i v1 ''confidence:''" and
    v2: "list_all js_space v2" and
    v3: "eq_i v3 ''100'' \<or> (\<exists>a b. v3 = a @ [b] \<and> js_digit b
            \<and> (a = [] \<or> (\<exists>c. a = [c] \<and> c \<in> set ''123456789'')))" and
    v4: "v4 = ''%''" and
    r: "rest = []"
    unfolding confidence_line_rx_def
    by (auto simp: rx_sem_lit_i chr_i_def percent_fixed)
  have d: "list_all js_digit v3 \<and> 1 \<le> length v3 \<and> length v3 \<le> 3"
  proof (cases "eq_i v3 ''100''")
    case True
    then have "v3 = ''100''" by (rule eq_i_100)
    then show ?thesis by (simp add: js_digit_def)
  next
    case False
    with v3 show ?thesis by (auto simp: js_digit_def)
  qed
  have "l = v1 @ v2 @ v3 @ ''%''"
    using l u v4 r by simp
  with v1 v2 d show ?thesis
    unfolding confidence_shape_def by blast
qed

lemma digit_not_space: "js_digit c \<Longrightarrow> \<not> js_space c"
  by (auto simp: js_digit_def js_space_def)

lemma digit_lower: "js_digit c \<Longrightarrow> lower_char c = c"
  by (rule lower_char_id) (auto simp: js_digit_def ascii_upper_def)

lemma percent_text:
  assumes "list_all js_digit d" "1 \<le> length d"
  shows "trim (d @ ''%'') = d @ ''%''"
    and "\<not> startsWith (toLowerCase (d @ ''%'')) ''confidence:''"
proof -
  obtain c t where d: "d = c # t" using assms(2) by (cases d) auto
  then have c: "js_digit c" using assms(1) by simp
  have h: "\<not> js_space (hd (d @ ''%''))"
    using d digit_not_space [OF c] by simp
  have l: "\<not> js_space (last (d @ ''%''))"
    by (simp add: js_space_def)
  show "trim (d @ ''%'') = d @ ''%''"
    using h l by (intro trim_id) simp_all
  have "lower_char c \<noteq> CHR ''c''"
    using c digit_lower [OF c] by (auto simp: js_digit_def)
  then show "\<not> startsWith (toLowerCase (d @ ''%'')) ''confidence:''"
    using d by (simp add: startsWith_def toLowerCase_def)
qed

lemma confidence_section:
  "\<exists>d. with_label ''confidence:'' ''Confidence: '' (or_default (captured confidence_rx x) ''30%'')
          = ''Confidence: '' @ d @ ''%''
       \<and> list_all js_digit d \<and> 1 \<le> length d \<and> length d \<le> 3"
proof -
  have "\<exists>d. or_default (captured confidence_rx x) ''30%'' = d @ ''%''
             \<and> list_all js_digit d \<and> 1 \<le> length d \<and> length d \<le> 3"
  proof (cases "group1 (rx_exec confidence_rx x)")
    case None
    then have "or_default (captured confidence_rx x) ''30%'' = ''30'' @ ''%''"
      by (simp add: captured_def or_default_def)
    moreover have "list_all js_digit ''30'' \<and> 1 \<le> length ''30'' \<and> length ''30'' \<le> 3"
      by (simp add: js_digit_def)
    ultimately show ?thesis by blast
  next
    case (Some g)
    then obtain d where d: "g = d @ ''%''" "list_all js_digit d" "1 \<le> length d" "length d \<le> 3"
      using confidence_capture by blast
    have "captured confidence_rx x = d @ ''%''"
      using Some d(1) percent_text(1) [OF d(2,3)] by (simp add: captured_def)
    then have "or_default (captured confidence_rx x) ''30%'' = d @ ''%''"
      by (simp add: or_default_def)
    with d show ?thesis by blast
  qed
  then obtain d where d: "or_default (captured confidence_rx x) ''30%'' = d @ ''%''"
    "list_all js_digit d" "1 \<le> length d" "length d \<le> 3" by blast
  have "with_label ''confidence:'' ''Confidence: '' (d @ ''%'') = ''Confidence: '' @ d @ ''%''"
    using percent_text(2) [OF d(2,3)] by (simp add: with_label_def)
  with d show ?thesis by auto
qed

lemma confidence_section_shape:
  assumes "list_all js_digit d" "1 \<le> length d" "length d \<le> 3"
  shows "trim (''Confidence: '' @ d @ ''%'') = ''Confidence: '' @ d @ ''%''"
    and "confidence_shape (''Confidence: '' @ d @ ''%'')"
proof -
  show "trim (''Confidence: '' @ d @ ''%'') = ''Confidence: '' @ d @ ''%''"
    by (intro trim_id) (simp_all add: js_space_def)
  have "''Confidence: '' @ d @ ''%'' = ''Confidence:'' @ '' '' @ d @ ''%''"
    by simp
  moreover have "eq_i ''Confidence:'' ''confidence:''"
    by code_simp
  moreover have "list_all js_space '' ''"
    by (simp add: js_space_def)
  ultimately show "confidence_shape (''Confidence: '' @ d @ ''%'')"
    unfolding confidence_shape_def using assms by blast
qed

lemma captured_trimmed: "trim (captured r x) = captured r x"
proof (cases "group1 (rx_exec r x)")
  case None
  then show ?thesis by (simp add: captured_def trim_def)
next
  case (Some g)
  then show ?thesis by (simp add: captured_def trim_trim)
qed

lemma or_default_trimmed: "trim d = d \<Longrightarrow> trim (or_default (captured r x) d) = or_default (captured r x) d"
  by (simp add: or_default_def captured_trimmed)

lemma or_default_nonempty: "d \<noteq> [] \<Longrightarrow> or_default s d \<noteq> []"
  by (simp add: or_default_def)

lemma explanation_section:
  assumes "trim s = s" "s \<noteq> []"
  shows "startsWith (toLowerCase (trim (with_label ''explanation:'' ''Explanation: '' s))) ''explanation:''"
    and "with_label ''explanation:'' ''Explanation: '' s \<noteq> []"
    and "\<not> js_space (hd (with_label ''explanation:'' ''Explanation: '' s))"
proof -
  have pre: "startsWith (toLowerCase (trim (''Explanation:'' @ ('' '' @ s)))) (toLowerCase ''Explanation:'')"
    by (rule startsWith_label) (simp_all add: js_space_def)
  have low: "toLowerCase ''Explanation:'' = ''explanation:''"
    by code_simp
  show "startsWith (toLowerCase (trim (with_label ''explanation:'' ''Explanation: '' s))) ''explanation:''"
    using pre assms(1) by (simp add: with_label_def low)
  show "with_label ''explanation:'' ''Explanation: '' s \<noteq> []"
    using assms(2) by (simp add: with_label_def)
  show "\<not> js_space (hd (with_label ''explanation:'' ''Explanation: '' s))"
  proof (cases "startsWith (toLowerCase s) ''explanation:''")
    case True
    then show ?thesis
      using startsWith_hd [of s "CHR ''e''" "''xplanation:''"] by (simp add: with_label_def js_space_def)
  next
    case False
    then show ?thesis by (simp add: with_label_def js_space_def)
  qed
qed

lemma exactAnswer_section:
  assumes "trim s = s"
  shows "startsWith (toLowerCase (trim (with_label ''exact answer:'' ''Exact Answer: '' s))) ''exact answer:''"
proof -
  have pre: "startsWith (toLowerCase (trim (''Exact Answer:'' @ ('' '' @ s)))) (toLowerCase ''Exact Answer:'')"
    by (rule startsWith_label) (simp_all add: js_space_def)
  have low: "toLowerCase ''Exact Answer:'' = ''exact answer:''"
    by code_simp
  show ?thesis
    using pre assms(1) by (simp add: with_label_def low)
qed

lemma three_sectionsI:
  "startsWith (toLowerCase (trim e)) ''explanation:'' \<Longrightarrow>
   startsWith (toLowerCase (trim a)) ''exact answer:'' \<Longrightarrow>
   confidence_shape (trim c) \<Longrightarrow>
   three_sections (e @ [newline] @ a @ [newline] @ c)"
  unfolding three_sections_def by blast

lemma explanation_label:
  "startsWith (toLowerCase (trim (''Explanation:'' @ s))) ''explanation:''"
proof -
  have "startsWith (toLowerCase (trim (''Explanation:'' @ s))) (toLowerCase ''Explanation:'')"
    by (rule startsWith_label) (simp_all add: js_space_def)
  moreover have "toLowerCase ''Explanation:'' = ''explanation:''"
    by code_simp
  ultimately show ?thesis by simp
qed

lemma fallback_sections: "three_sections (fallback_answer q)"
proof -
  have e: "startsWith (toLowerCase (trim (''Explanation:'' @
             '' The research could not find a definitive answer to: '' @ [dquote] @ q @ [dquote] @ ''.'')))
           ''explanation:''"
    by (rule explanation_label)
  have a: "startsWith (toLowerCase (trim ''Exact Answer: Unknown'')) ''exact answer:''"
    by code_simp
  have "list_all js_digit ''10''" by (simp add: js_digit_def)
  then have c: "confidence_shape (trim (''Confidence: '' @ ''10'' @ ''%''))"
    using confidence_section_shape [of "''10''"] by simp
  show ?thesis
    using three_sectionsI [OF e a c] by (simp add: fallback_answer_def)
qed

lemma hard_fallback_sections: "three_sections hard_fallback"
proof -
  have e: "startsWith (toLowerCase (trim (''Explanation:'' @
             '' The research did not produce a specific match for the requested constraints.'')))
           ''explanation:''"
    by (rule explanation_label)
  have a: "startsWith (toLowerCase (trim ''Exact Answer: Unknown'')) ''exact answer:''"
    by code_simp
  have "list_all js_digit ''0''" by (simp add: js_digit_def)
  then have c: "confidence_shape (trim (''Confidence: '' @ ''0'' @ ''%''))"
    using confidence_section_shape [of "''0''"] by simp
  show ?thesis
    using three_sectionsI [OF e a c] by (simp add: hard_fallback_def)
qed

lemma valid_sections:
  assumes "validThreeLines x"
  shows "three_sections (trim x)"
proof -
  from assms obtain r0 r1 r2 where
    sp: "split_nl (trim x) = [r0, r1, r2]" and
    e: "startsWith (toLowerCase (trim r0)) ''explanation:''" and
    a: "startsWith (toLowerCase (trim r1)) ''exact answer:''" and
    c: "rx_test_anchored confidence_line_rx (trim r2)"
    by (auto simp: validThreeLines_def map_eq_Cons_conv split: list.splits)
  have "trim x = r0 @ [newline] @ r1 @ [newline] @ r2"
    using sp by (rule split_nl_three)
  then show ?thesis
    using three_sectionsI [OF e a confidence_line_shape [OF c]] by simp
qed

lemma default_trimmed:
  "trim ''The research could not find a definitive answer.''
     = ''The research could not find a definitive answer.''"
  "trim ''Unknown'' = ''Unknown''"
  by (rule trim_id; simp add: js_space_def)+

lemma salvaged_sections: "three_sections (salvaged x)"
proof -
  let ?e = "or_default (captured explanation_rx x) ''The research could not find a definitive answer.''"
  let ?a = "or_default (captured exactAnswer_rx x) ''Unknown''"
  have te: "trim ?e = ?e" by (rule or_default_trimmed) (rule default_trimmed)
  have ne: "?e \<noteq> []" by (rule or_default_nonempty) simp
  have ta: "trim ?a = ?a" by (rule or_default_trimmed) (rule default_trimmed)
  obtain d where d: "with_label ''confidence:'' ''Confidence: '' (or_default (captured confidence_rx x) ''30%'')
          = ''Confidence: '' @ d @ ''%''" "list_all js_digit d" "1 \<le> length d" "length d \<le> 3"
    using confidence_section [of x] by blast
  have c: "confidence_shape (trim (''Confidence: '' @ d @ ''%''))"
    using confidence_section_shape [OF d(2,3,4)] by simp
  show ?thesis
    unfolding salvaged_def d(1)
    by (rule three_sectionsI [OF explanation_section(1) [OF te ne] exactAnswer_section [OF ta] c])
qed

lemma salvaged_trimmed: "trim (salvaged x) = salvaged x"
proof -
  let ?e = "or_default (captured explanation_rx x) ''The research could not find a definitive answer.''"
  have te: "trim ?e = ?e" by (rule or_default_trimmed) (rule default_trimmed)
  have ne: "?e \<noteq> []" by (rule or_default_nonempty) simp
  obtain d where d: "with_label ''confidence:'' ''Confidence: '' (or_default (captured confidence_rx x) ''30%'')
          = ''Confidence: '' @ d @ ''%''"
    using confidence_section [of x] by blast
  have h: "\<not> js_space (hd (salvaged x))"
    using explanation_section(2,3) [OF te ne] by (simp add: salvaged_def)
  have l: "\<not> js_space (last (salvaged x))"
    unfolding salvaged_def d by (simp add: js_space_def)
  have n: "salvaged x \<noteq> []"
    by (simp add: salvaged_def)
  show ?thesis
    using n h l by (rule trim_id)
qed

lemma format_cases:
  "ensureValidBrowseCompFormat x q = fallback_answer q
   \<or> (validThreeLines x \<and> ensureValidBrowseCompFormat x q = trim x)
   \<or> ensureValidBrowseCompFormat x q = salvaged x"
  by (simp add: ensureValidBrowseCompFormat_def salvaged_def Let_def)

lemma format_sections: "three_sections (ensureValidBrowseCompFormat x q)"
  using format_cases [of x q] fallback_sections [of q] valid_sections [of x] salvaged_sections [of x]
  by auto

lemma fallback_trimmed: "trim (fallback_answer q) = fallback_answer q"
  by (rule trim_id) (simp_all add: fallback_answer_def js_space_def)

lemma format_trimmed: "trim (ensureValidBrowseCompFormat x q) = ensureValidBrowseCompFormat x q"
  using format_cases [of x q] fallback_trimmed [of q] trim_trim [of x] salvaged_trimmed [of x]
  by auto

text \<open>
  C1 as stated fails. A final text whose explanation takes two lines comes back with four
  lines, since the salvage patterns match across line breaks and the sections are only
  trimmed; and a confidence of 999% passes the salvage pattern, which takes any one to
  three digits.
\<close>

theorem formatter_lines_counterexample:
  "split_nl (ensureValidBrowseCompFormat multiline_answer ''Which river is the longest?'')
     = [''Explanation: The Nile is the longest.'', ''It is 6650 km long.'',
        ''Exact Answer: Nile'', ''Confidence: 90%'']
   \<and> split_nl (ensureValidBrowseCompFormat ''Confidence: 999%'' ''Which river is the longest?'')
     = [''Explanation: The research could not find a definitive answer.'',
        ''Exact Answer: Unknown'', ''Confidence: 999%'']"
  by code_simp

text \<open>
  C1, amended. For every input string and every question, ensureValidBrowseCompFormat
  returns three sections separated by line breaks: read after trimming, the first starts
  with \<open>explanation:\<close>, the second with \<open>exact answer:\<close> (in any case of the
  letters), and the third is \<open>confidence:\<close>, optional whitespace, one to three digits
  and \<open>%\<close>. The first two sections may themselves hold line breaks. Every response
  content of an eval-mode run has this shape.
\<close>

theorem formatter_three_sections:
  "three_sections (ensureValidBrowseCompFormat x q)
   \<and> three_sections (response_content lastUserMessage outcome)"
proof -
  have "three_sections (response_content lastUserMessage outcome)"
    by (cases outcome) (simp_all add: response_content_def Let_def format_sections hard_fallback_sections)
  then show ?thesis
    using format_sections by simp
qed

theorem formatter_three_sections_witness:
  "three_sections (ensureValidBrowseCompFormat multiline_answer ''Which river is the longest?'')
   \<and> ensureValidBrowseCompFormat multiline_answer ''Which river is the longest?'' = multiline_answer
   \<and> three_sections (response_content ''Which river is the longest?'' (FinalText multiline_answer))"
proof -
  have "ensureValidBrowseCompFormat multiline_answer ''Which river is the longest?'' = multiline_answer"
    by code_simp
  then show ?thesis
    using formatter_three_sections [of multiline_answer "''Which river is the longest?''"
        "''Which river is the longest?''" "FinalText multiline_answer"]
    by simp
qed

subsection \<open>The fixed points of the formatter\<close>

lemma lit_i_Cons: "lit_i (c # p) = Cat (chr_i c) (lit_i p)"
  by (simp add: lit_i_def)

lemma lit_match:
  "rx_match (lit_i l) s = (if starts_i s l then [([], drop (length l) s)] else [])"
proof (induction l arbitrary: s)
  case Nil
  show ?case by (simp add: lit_i_def starts_i_def eq_i_def)
next
  case (Cons c l)
  show ?case
  proof (cases s)
    case Nil
    then show ?thesis by (simp add: lit_i_Cons chr_i_def starts_i_def eq_i_def)
  next
    case (Cons x t)
    show ?thesis
      using Cons.IH [of t] Cons
      by (simp add: lit_i_Cons chr_i_def starts_i_def eq_i_def)
  qed
qed

lemma cat_lit_match:
  "rx_match (Cat (lit_i l) r) s
   = (if starts_i s l then rx_match r (drop (length l) s) else [])"
  by (simp add: lit_match)

lemma lazy_cut_prefix: "lazy_cut a u @ drop (length (lazy_cut a u)) u = u"
  by (induction u) auto

lemma lazy_cut_length: "length (lazy_cut a u) \<le> length u"
  by (induction u) auto

lemma lazy_cut_take: "take (length (lazy_cut a u)) u = lazy_cut a u"
  by (induction u) auto

lemma lazy_cut_before:
  "n < length (lazy_cut a u) \<Longrightarrow> rx_match a (drop n u) = []"
proof (induction u arbitrary: n)
  case Nil
  then show ?case by simp
next
  case (Cons c u)
  then show ?case by (cases n) (auto split: if_splits)
qed

lemma lazy_cut_at:
  "rx_match a [] \<noteq> [] \<Longrightarrow> rx_match a (drop (length (lazy_cut a u)) u) \<noteq> []"
  by (induction u) auto

lemma take_any: "takeWhile any_char u = u"
  by (induction u) (simp_all add: any_char_def)

lemma grp_lazy_match:
  "rx_match (Cat (Grp (Lazy any_char)) (Ahead a)) u
   = concat (map (\<lambda>n. if rx_match a (drop n u) = [] then [] else [([take n u], drop n u)])
                 [0..<Suc (length u)])"
proof -
  have "rx_match (Grp (Lazy any_char)) u
        = map (\<lambda>n. ([take n u], drop n u)) [0..<Suc (length u)]"
    by (simp add: take_any del: upt_Suc)
  then have "rx_match (Cat (Grp (Lazy any_char)) (Ahead a)) u
        = concat (map (\<lambda>(c1, r1). map (\<lambda>(c2, r2). (c1 @ c2, r2)) (rx_match (Ahead a) r1))
                      (map (\<lambda>n. ([take n u], drop n u)) [0..<Suc (length u)]))"
    by (simp only: rx_match.simps)
  also have "\<dots> = concat (map (\<lambda>n. if rx_match a (drop n u) = [] then [] else [([take n u], drop n u)])
                 [0..<Suc (length u)])"
  proof -
    have "map (\<lambda>(c2, r2). (take n u # c2, r2)) (if rx_match a (drop n u) = [] then [] else [([], drop n u)])
          = (if rx_match a (drop n u) = [] then [] else [([take n u], drop n u)])" for n
      by simp
    then show ?thesis
      by (simp add: comp_def del: upt_Suc)
  qed
  finally show ?thesis .
qed

lemma concat_first:
  assumes "k \<le> n" "\<forall>i<k. f i = []"
  shows "concat (map f [0..<Suc n]) = f k @ concat (map f [Suc k..<Suc n])"
proof -
  have "[0..<Suc n] = [0..<k] @ k # [Suc k..<Suc n]"
  proof -
    have "[0..<k + (Suc n - k)] = [0..<k] @ [k..<k + (Suc n - k)]"
      by (rule upt_add_eq_append) simp
    moreover have "[k..<Suc n] = k # [Suc k..<Suc n]"
      using assms(1) by (simp add: upt_conv_Cons del: upt_Suc)
    ultimately show ?thesis using assms(1) by simp
  qed
  moreover have "concat (map f [0..<k]) = []"
    using assms(2) by simp
  ultimately show ?thesis by simp
qed

lemma grp_lazy_head:
  assumes "rx_match a [] \<noteq> []"
  shows "\<exists>ms. rx_match (Cat (Grp (Lazy any_char)) (Ahead a)) u
              = ([lazy_cut a u], drop (length (lazy_cut a u)) u) # ms"
proof -
  let ?k = "length (lazy_cut a u)"
  let ?f = "\<lambda>n. if rx_match a (drop n u) = [] then [] else [([take n u], drop n u)]"
  have "concat (map ?f [0..<Suc (length u)]) = ?f ?k @ concat (map ?f [Suc ?k..<Suc (length u)])"
    by (rule concat_first) (simp_all add: lazy_cut_length lazy_cut_before)
  moreover have "?f ?k = [([lazy_cut a u], drop ?k u)]"
    using lazy_cut_at [OF assms, of u] by (simp add: lazy_cut_take)
  ultimately show ?thesis
    unfolding grp_lazy_match by simp
qed

lemma star_head:
  "\<exists>ns. rx_match (Star p) s = ([], dropWhile p s) # ns"
proof -
  have "drop (length (takeWhile p s)) s = dropWhile p s"
    by (metis dropWhile_eq_drop)
  then show ?thesis by simp
qed

lemma cat_head:
  assumes "rx_match a s = (c1, r1) # ns" "rx_match b r1 = (c2, r2) # ms"
  shows "\<exists>ks. rx_match (Cat a b) s = (c1 @ c2, r2) # ks"
  using assms by simp

lemma section_head:
  assumes "rx_match a [] \<noteq> []" "starts_i s l"
  shows "\<exists>rest ks. rx_match (Cat (lit_i l) (Cat (Star js_space) (Cat (Grp (Lazy any_char)) (Ahead a)))) s
           = ([lazy_cut a (dropWhile js_space (drop (length l) s))], rest) # ks"
proof -
  let ?t = "drop (length l) s"
  obtain ns where 1: "rx_match (Star js_space) ?t = ([], dropWhile js_space ?t) # ns"
    using star_head by blast
  obtain ms where 2: "rx_match (Cat (Grp (Lazy any_char)) (Ahead a)) (dropWhile js_space ?t)
       = ([lazy_cut a (dropWhile js_space ?t)],
          drop (length (lazy_cut a (dropWhile js_space ?t))) (dropWhile js_space ?t)) # ms"
    using grp_lazy_head [OF assms(1)] by blast
  obtain ks where "rx_match (Cat (Star js_space) (Cat (Grp (Lazy any_char)) (Ahead a))) ?t
       = ([] @ [lazy_cut a (dropWhile js_space ?t)],
          drop (length (lazy_cut a (dropWhile js_space ?t))) (dropWhile js_space ?t)) # ks"
    using cat_head [OF 1 2] by blast
  then show ?thesis
    using assms(2) by (simp only: cat_lit_match if_True append_Nil) blast
qed

lemma rx_exec_here:
  assumes "rx_match r s = (cs, rest) # ks"
  shows "rx_exec r s = Some cs"
  using assms by (cases s) simp_all

lemma rx_exec_skip:
  assumes "\<forall>m<length pre. rx_match r (drop m pre @ s) = []"
  shows "rx_exec r (pre @ s) = rx_exec r s"
  using assms
proof (induction pre)
  case Nil
  show ?case by simp
next
  case (Cons c pre)
  have 0: "rx_match r ((c # pre) @ s) = []"
    using Cons.prems [rule_format, of 0] by simp
  have "\<forall>m<length pre. rx_match r (drop m pre @ s) = []"
  proof (intro allI impI)
    fix m assume "m < length pre"
    then show "rx_match r (drop m pre @ s) = []"
      using Cons.prems [rule_format, of "Suc m"] by simp
  qed
  then have "rx_exec r (pre @ s) = rx_exec r s" by (rule Cons.IH)
  with 0 show ?case by simp
qed


lemma starts_i_length: "starts_i s l \<Longrightarrow> length l \<le> length s"
proof -
  assume "starts_i s l"
  then have "length (take (length l) s) = length l"
    unfolding starts_i_def eq_i_def by (metis length_map)
  then show ?thesis by simp
qed

lemma starts_i_append: "starts_i p l \<Longrightarrow> starts_i (p @ r) l"
  using starts_i_length [of p l] by (simp add: starts_i_def)

lemma starts_i_block:
  assumes "starts_i (e @ c # rest) l" "\<forall>x\<in>set l. rx_canon x \<noteq> rx_canon c"
  shows "starts_i e l"
proof (cases "length l \<le> length e")
  case True
  then show ?thesis using assms(1) by (simp add: starts_i_def)
next
  case False
  then have lt: "length e < length l" by simp
  have eq: "map rx_canon (take (length l) (e @ c # rest)) = map rx_canon l"
    using assms(1) by (simp add: starts_i_def eq_i_def)
  have "length (take (length l) (e @ c # rest)) = length l"
    using eq by (metis length_map)
  then have "map rx_canon (take (length l) (e @ c # rest)) ! length e = rx_canon c"
    using lt by (simp add: nth_append)
  then have "rx_canon (l ! length e) = rx_canon c"
    using eq lt by simp
  moreover have "l ! length e \<in> set l" using lt by simp
  ultimately show ?thesis using assms(2) by blast
qed

lemma contains_i_drop: "\<not> contains_i e l \<Longrightarrow> \<not> starts_i (drop m e) l"
proof (induction e arbitrary: m)
  case Nil
  then show ?case by simp
next
  case (Cons c e)
  then show ?case by (cases m) auto
qed

lemma clear_of_drop:
  assumes "clear_of p l" "m < length p"
  shows "\<not> starts_i (drop m p @ r) l"
proof
  assume st: "starts_i (drop m p @ r) l"
  let ?q = "drop m p"
  have eq: "map rx_canon (take (length l) (?q @ r)) = map rx_canon l"
    using st by (simp add: starts_i_def eq_i_def)
  have "take (length ?q) (take (length l) (?q @ r)) = take (length l) (take (length ?q) (?q @ r))"
    by (simp only: take_take min.commute)
  then have a: "take (length ?q) (take (length l) (?q @ r)) = take (length l) ?q"
    by simp
  have "take (length ?q) (map rx_canon (take (length l) (?q @ r))) = take (length ?q) (map rx_canon l)"
    using eq by (rule arg_cong)
  then have "map rx_canon (take (length l) ?q) = map rx_canon (take (length ?q) l)"
    by (simp only: take_map a)
  then have "eq_i (take (length l) (drop m p)) (take (length p - m) l)"
    by (simp add: eq_i_def)
  moreover have "\<not> eq_i (take (length l) (drop m p)) (take (length p - m) l)"
    using assms by (simp add: clear_of_def list_all_iff)
  ultimately show False by blast
qed

lemma no_start:
  assumes "clear_of p l" "\<not> contains_i e l" "\<forall>x\<in>set l. rx_canon x \<noteq> rx_canon c"
    and "m < length (p @ e @ [c])"
  shows "\<not> starts_i (drop m (p @ e @ [c]) @ s) l"
proof (cases "m < length p")
  case True
  have "drop m (p @ e @ [c]) @ s = drop m p @ (e @ [c] @ s)"
    using True by simp
  then show ?thesis
    using clear_of_drop [OF assms(1) True] by simp
next
  case False
  then have "drop m (p @ e @ [c]) @ s = drop (m - length p) e @ c # s"
    using assms(4) by simp
  moreover have "\<not> starts_i (drop (m - length p) e @ c # s) l"
    using starts_i_block [OF _ assms(3)] contains_i_drop [OF assms(2)] by blast
  ultimately show ?thesis by simp
qed

lemma lazy_cut_stop:
  assumes "\<forall>m\<le>length e. rx_match a (drop m e @ c # rest) = []" "rx_match a rest \<noteq> []"
  shows "lazy_cut a (e @ c # rest) = e @ [c]"
  using assms(1)
proof (induction e)
  case Nil
  have "lazy_cut a rest = []"
    using assms(2) by (cases rest) auto
  with Nil show ?case by simp
next
  case (Cons x e)
  have 0: "rx_match a ((x # e) @ c # rest) = []"
    using Cons.prems [rule_format, of 0] by simp
  have "\<forall>m\<le>length e. rx_match a (drop m e @ c # rest) = []"
  proof (intro allI impI)
    fix m assume "m \<le> length e"
    then show "rx_match a (drop m e @ c # rest) = []"
      using Cons.prems [rule_format, of "Suc m"] by simp
  qed
  then have "lazy_cut a (e @ c # rest) = e @ [c]" by (rule Cons.IH)
  with 0 show ?case by simp
qed

lemma ahead_match:
  "(rx_match (Alt (lit_i la) (Alt (lit_i lb) Eos)) s = [])
   = (\<not> starts_i s la \<and> \<not> starts_i s lb \<and> s \<noteq> [])"
  by (simp add: lit_match)

lemma trim_line:
  assumes "e \<noteq> []" "trim e = e"
  shows "trim (e @ [newline]) = e"
proof -
  have ends: "\<not> js_space (hd e)" "\<not> js_space (last e)"
    using trim_ends [of e] assms by simp_all
  have 1: "dropWhile js_space (e @ [newline]) = e @ [newline]"
    using assms(1) ends(1) by (cases e) auto
  have nl: "js_space newline" by (simp add: js_space_def newline_def)
  have 2: "dropWhile js_space (rev e) = rev e"
    using assms(1) ends(2) by (cases "rev e") (auto simp: hd_rev)
  show ?thesis by (simp add: trim_def 1 2 nl)
qed


lemma section_capture:
  assumes "rx_match a [] \<noteq> []" "starts_i s l"
    and "dropWhile js_space (drop (length l) s) = v @ c # rest"
    and "\<forall>m\<le>length v. rx_match a (drop m v @ c # rest) = []" "rx_match a rest \<noteq> []"
  shows "rx_exec (Cat (lit_i l) (Cat (Star js_space) (Cat (Grp (Lazy any_char)) (Ahead a)))) s
         = Some [v @ [c]]"
proof -
  obtain r ks where "rx_match (Cat (lit_i l) (Cat (Star js_space) (Cat (Grp (Lazy any_char)) (Ahead a)))) s
           = ([lazy_cut a (dropWhile js_space (drop (length l) s))], r) # ks"
    using section_head [OF assms(1,2)] by blast
  then have "rx_exec (Cat (lit_i l) (Cat (Star js_space) (Cat (Grp (Lazy any_char)) (Ahead a)))) s
           = Some [lazy_cut a (dropWhile js_space (drop (length l) s))]"
    by (rule rx_exec_here)
  then show ?thesis
    using lazy_cut_stop [OF assms(4,5)] assms(3) by simp
qed

lemma label_skip:
  assumes "clear_of p l" "\<not> contains_i e l" "\<forall>x\<in>set l. rx_canon x \<noteq> rx_canon c"
  shows "rx_exec (Cat (lit_i l) r) (p @ e @ c # s) = rx_exec (Cat (lit_i l) r) s"
proof -
  have "\<forall>m<length (p @ e @ [c]). rx_match (Cat (lit_i l) r) (drop m (p @ e @ [c]) @ s) = []"
    using no_start [OF assms] by (simp only: cat_lit_match) simp
  then have "rx_exec (Cat (lit_i l) r) ((p @ e @ [c]) @ s) = rx_exec (Cat (lit_i l) r) s"
    by (rule rx_exec_skip)
  then show ?thesis by simp
qed

lemma captured_group: "rx_exec r t = Some [g] \<Longrightarrow> captured r t = trim g"
  by (simp add: captured_def group1_def)

lemma rep_head:
  assumes "m \<le> length (takeWhile p s)" "length (takeWhile p s) \<le> n"
  shows "\<exists>ks. rx_match (Rep m n p) s = ([], dropWhile p s) # ks"
proof -
  let ?k = "length (takeWhile p s)"
  have "min n ?k = ?k" using assms(2) by simp
  moreover have "rev [m..<Suc ?k] = ?k # rev [m..<?k]"
    using assms(1) by simp
  moreover have "drop ?k s = dropWhile p s"
    by (metis dropWhile_eq_drop)
  ultimately show ?thesis by (simp del: upt_Suc)
qed

lemma confidence_head:
  assumes "list_all js_digit d" "1 \<le> length d" "length d \<le> 3"
  shows "\<exists>ks. rx_match confidence_rx (''Confidence: '' @ d @ ''%'') = ([d @ ''%''], []) # ks"
proof -
  have pc: "\<not> js_digit CHR ''%''" by (simp add: js_digit_def)
  have tw: "takeWhile js_digit (d @ ''%'') = d"
    using assms(1) pc by (simp add: list_all_iff takeWhile_append2)
  have dw: "dropWhile js_digit (d @ ''%'') = ''%''"
    using assms(1) pc by (simp add: list_all_iff dropWhile_append2)
  obtain ks1 where 1: "rx_match (Rep 1 3 js_digit) (d @ ''%'') = ([], ''%'') # ks1"
    using rep_head [of 1 js_digit "d @ ''%''" 3] assms(2,3) by (simp only: tw dw) blast
  have 2: "rx_match (chr_i CHR ''%'') ''%'' = ([], []) # []"
    by (simp add: chr_i_def)
  obtain ks2 where "rx_match (Cat (Rep 1 3 js_digit) (chr_i CHR ''%'')) (d @ ''%'') = ([] @ [], []) # ks2"
    using cat_head [OF 1 2] by blast
  then obtain ks3 where 3: "rx_match (Grp (Cat (Rep 1 3 js_digit) (chr_i CHR ''%''))) (d @ ''%'')
      = ([d @ ''%''], []) # ks3"
    by simp
  obtain x t where d: "d = x # t" using assms(2) by (cases d) auto
  then have "\<not> js_space x" using assms(1) digit_not_space by simp
  then have "dropWhile js_space ('' '' @ d @ ''%'') = d @ ''%''"
    using d by (simp add: js_space_def)
  then obtain ks4 where 4: "rx_match (Star js_space) ('' '' @ d @ ''%'') = ([], d @ ''%'') # ks4"
    using star_head [of js_space "'' '' @ d @ ''%''"] by auto
  obtain ks5 where 5: "rx_match (Cat (Star js_space) (Grp (Cat (Rep 1 3 js_digit) (chr_i CHR ''%''))))
       ('' '' @ d @ ''%'') = ([] @ [d @ ''%''], []) # ks5"
    using cat_head [OF 4 3] by blast
  have st: "starts_i (''Confidence: '' @ d @ ''%'') ''confidence:''"
    by (rule starts_i_append) code_simp
  show ?thesis
    unfolding confidence_rx_def cat_lit_match using st 5 by simp
qed

lemma canonical_fixed:
  assumes "canonical_answer y"
  shows "ensureValidBrowseCompFormat y q = y"
proof -
  obtain e a d where y: "y = ''Explanation: '' @ e @ [newline] @ ''Exact Answer: '' @ a @ [newline]
                    @ ''Confidence: '' @ d @ ''%''"
    and e: "e \<noteq> []" "trim e = e" "\<not> startsWith (toLowerCase e) ''explanation:''"
           "\<not> contains_i e ''exact answer:''" "\<not> contains_i e ''confidence:''"
    and a: "a \<noteq> []" "trim a = a" "\<not> startsWith (toLowerCase a) ''exact answer:''"
           "\<not> contains_i a ''explanation:''" "\<not> contains_i a ''confidence:''"
    and d: "list_all js_digit d" "1 \<le> length d" "length d \<le> 3"
    using assms unfolding canonical_answer_def by blast
  let ?s3 = "''Confidence: '' @ d @ ''%''"
  let ?s2 = "''Exact Answer: '' @ a @ newline # ?s3"
  have y1: "y = ''Explanation: '' @ e @ newline # ?s2" using y by simp
  have nl1: "\<forall>x\<in>set ''explanation:''. rx_canon x \<noteq> rx_canon newline" by code_simp
  have nl2: "\<forall>x\<in>set ''exact answer:''. rx_canon x \<noteq> rx_canon newline" by code_simp
  have nl3: "\<forall>x\<in>set ''confidence:''. rx_canon x \<noteq> rx_canon newline" by code_simp
  have st1: "starts_i y ''explanation:''"
    unfolding y1 by (rule starts_i_append) code_simp
  have st2: "starts_i ?s2 ''exact answer:''"
    by (rule starts_i_append) code_simp
  have st3: "starts_i ?s3 ''confidence:''"
    by (rule starts_i_append) code_simp
  have he: "\<not> js_space (hd e)" using trim_ends [of e] e(1,2) by simp
  have ha: "\<not> js_space (hd a)" using trim_ends [of a] a(1,2) by simp
  \<comment> \<open>the explanation\<close>
  have dw1: "dropWhile js_space (drop (length ''explanation:'') y) = e @ newline # ?s2"
    using e(1) he unfolding y1 by (cases e) (simp_all add: js_space_def)
  have free1: "\<forall>m\<le>length e. rx_match (Alt (lit_i ''exact answer:'') (Alt (lit_i ''confidence:'') Eos))
                   (drop m e @ newline # ?s2) = []"
    unfolding ahead_match
    using starts_i_block [OF _ nl2] starts_i_block [OF _ nl3]
          contains_i_drop [OF e(4)] contains_i_drop [OF e(5)] by blast
  have stop1: "rx_match (Alt (lit_i ''exact answer:'') (Alt (lit_i ''confidence:'') Eos)) ?s2 \<noteq> []"
    unfolding ahead_match using st2 by blast
  have "rx_exec explanation_rx y = Some [e @ [newline]]"
    unfolding explanation_rx_def
    by (rule section_capture [OF _ st1 dw1 free1 stop1]) simp
  then have c1: "captured explanation_rx y = e"
    using captured_group trim_line [OF e(1,2)] by simp
  \<comment> \<open>the exact answer\<close>
  have cl12: "clear_of ''Explanation: '' ''exact answer:''" by code_simp
  have dw2: "dropWhile js_space (drop (length ''exact answer:'') ?s2) = a @ newline # ?s3"
    using a(1) ha by (cases a) (simp_all add: js_space_def)
  have free2: "\<forall>m\<le>length a. rx_match (Alt (lit_i ''explanation:'') (Alt (lit_i ''confidence:'') Eos))
                   (drop m a @ newline # ?s3) = []"
    unfolding ahead_match
    using starts_i_block [OF _ nl1] starts_i_block [OF _ nl3]
          contains_i_drop [OF a(4)] contains_i_drop [OF a(5)] by blast
  have stop2: "rx_match (Alt (lit_i ''explanation:'') (Alt (lit_i ''confidence:'') Eos)) ?s3 \<noteq> []"
    unfolding ahead_match using st3 by blast
  have "rx_exec exactAnswer_rx y = rx_exec exactAnswer_rx ?s2"
    unfolding exactAnswer_rx_def y1 by (rule label_skip [OF cl12 e(4) nl2])
  also have "\<dots> = Some [a @ [newline]]"
    unfolding exactAnswer_rx_def
    by (rule section_capture [OF _ st2 dw2 free2 stop2]) simp
  finally have c2: "captured exactAnswer_rx y = a"
    using captured_group trim_line [OF a(1,2)] by simp
  \<comment> \<open>the confidence\<close>
  have cl13: "clear_of ''Explanation: '' ''confidence:''" by code_simp
  have cl23: "clear_of ''Exact Answer: '' ''confidence:''" by code_simp
  have "rx_exec confidence_rx y = rx_exec confidence_rx ?s2"
    unfolding confidence_rx_def y1 by (rule label_skip [OF cl13 e(5) nl3])
  also have "\<dots> = rx_exec confidence_rx ?s3"
    unfolding confidence_rx_def by (rule label_skip [OF cl23 a(5) nl3])
  also have "\<dots> = Some [d @ ''%'']"
    using confidence_head [OF d] rx_exec_here by blast
  finally have c3: "captured confidence_rx y = d @ ''%''"
    using captured_group percent_text(1) [OF d(1,2)] by simp
  have ne: "y \<noteq> []" using y by simp
  show ?thesis
  proof (cases "validThreeLines y")
    case True
    have "trim y = y"
      unfolding y by (rule trim_id) (simp_all add: js_space_def)
    with True ne show ?thesis by (simp add: ensureValidBrowseCompFormat_def)
  next
    case False
    have "ensureValidBrowseCompFormat y q
          = with_label ''explanation:'' ''Explanation: '' e @ [newline]
            @ with_label ''exact answer:'' ''Exact Answer: '' a @ [newline]
            @ with_label ''confidence:'' ''Confidence: '' (d @ ''%'')"
      using False ne e(1) a(1)
      by (simp add: ensureValidBrowseCompFormat_def c1 c2 c3 or_default_def Let_def)
    also have "\<dots> = y"
      using e(3) a(3) percent_text(2) [OF d(1,2)] by (simp add: with_label_def y)
    finally show ?thesis .
  qed
qed

lemma canon_lower: "rx_canon (lower_char c) = rx_canon c"
proof (cases "c \<in> set ascii_upper")
  case True
  have "\<forall>c\<in>set ascii_upper. rx_canon (lower_char c) = rx_canon c" by code_simp
  with True show ?thesis by blast
next
  case False
  then show ?thesis by (simp add: lower_char_id)
qed

lemma startsWith_starts_i: "startsWith (toLowerCase s) l \<Longrightarrow> starts_i s l"
proof -
  assume "startsWith (toLowerCase s) l"
  then have "map lower_char (take (length l) s) = l"
    by (simp add: startsWith_def toLowerCase_def take_map)
  then have "map rx_canon l = map rx_canon (map lower_char (take (length l) s))"
    by simp
  then show ?thesis
    by (simp add: starts_i_def eq_i_def canon_lower comp_def)
qed

lemma trim_length: "length (trim g) \<le> length g"
proof -
  have "length (dropWhile js_space (rev (dropWhile js_space g))) \<le> length (rev (dropWhile js_space g))"
    by (rule length_dropWhile_le)
  moreover have "length (dropWhile js_space g) \<le> length g"
    by (rule length_dropWhile_le)
  ultimately show ?thesis by (simp add: trim_def)
qed

lemma dropWhile_stop:
  assumes "r \<noteq> []" "\<not> p (hd r)"
  shows "dropWhile p (u @ r) = dropWhile p u @ r"
proof -
  have "dropWhile p r = r" using assms by (cases r) auto
  then show ?thesis by (induction u) auto
qed

lemma lazy_cut_le:
  assumes "rx_match a r \<noteq> []"
  shows "length (lazy_cut a (u @ r)) \<le> length u"
proof (induction u)
  case Nil
  show ?case using assms by (cases r) auto
next
  case (Cons x u)
  then show ?case by simp
qed

lemma contains_i_at:
  "contains_i e l \<Longrightarrow> \<exists>m. starts_i (drop m e) l"
proof (induction e)
  case Nil
  then have "starts_i (drop 0 []) l" by simp
  then show ?case by blast
next
  case (Cons c e)
  show ?case
  proof (cases "starts_i (c # e) l")
    case True
    then have "starts_i (drop 0 (c # e)) l" by simp
    then show ?thesis by blast
  next
    case False
    with Cons.prems have "contains_i e l" by simp
    then obtain m where "starts_i (drop m e) l" using Cons.IH by blast
    then have "starts_i (drop (Suc m) (c # e)) l" by simp
    then show ?thesis by blast
  qed
qed

lemma starts_i_hd:
  assumes "starts_i s (c # l)" "\<not> js_space c" "c \<notin> set ascii_upper"
  shows "s \<noteq> [] \<and> \<not> js_space (hd s)"
proof (cases s)
  case Nil
  with assms(1) show ?thesis by (simp add: starts_i_def eq_i_def)
next
  case (Cons x t)
  have eq: "rx_canon x = rx_canon c"
    using assms(1) Cons by (simp add: starts_i_def eq_i_def)
  have "\<not> js_space x"
  proof
    assume sp: "js_space x"
    then have "x \<notin> set ascii_lower" by (auto simp: js_space_def ascii_lower_def)
    then have "rx_canon x = x" by (rule rx_canon_id)
    with eq have "rx_canon c = x" by simp
    moreover have "x \<notin> set ascii_upper" using sp by (auto simp: js_space_def ascii_upper_def)
    ultimately have "c = x" by (rule rx_canon_fixed)
    with sp assms(2) show False by simp
  qed
  with Cons show ?thesis by simp
qed

lemma section_fixed:
  assumes V: "V = or_default (captured (Cat (lit_i l) (Cat (Star js_space) (Cat (Grp (Lazy any_char))
                    (Ahead (Alt (lit_i la) (Alt (lit_i lb) Eos)))))) (W @ c # rest)) D"
    and W: "W = with_label l (p0 @ '' '') V"
    and l: "2 \<le> length l" "length p0 = length l" "starts_i p0 l"
    and la: "la \<noteq> []" "lb \<noteq> []"
    and c: "js_space c"
    and rest: "rest \<noteq> []" "\<not> js_space (hd rest)"
              "rx_match (Alt (lit_i la) (Alt (lit_i lb) Eos)) rest \<noteq> []"
    and D: "D \<noteq> []" "trim D = D" "\<not> contains_i D la" "\<not> contains_i D lb"
           "\<not> startsWith (toLowerCase D) l"
  shows "W = p0 @ '' '' @ V \<and> V \<noteq> [] \<and> trim V = V \<and> \<not> startsWith (toLowerCase V) l
         \<and> \<not> contains_i V la \<and> \<not> contains_i V lb"
proof -
  let ?a = "Alt (lit_i la) (Alt (lit_i lb) Eos)"
  let ?X = "Cat (lit_i l) (Cat (Star js_space) (Cat (Grp (Lazy any_char)) (Ahead ?a)))"
  have a_end: "rx_match ?a [] \<noteq> []" by simp
  have Vne: "V \<noteq> []" using V D(1) by (simp add: or_default_def)
  have Vtr: "trim V = V" using V D(2) by (simp add: or_default_trimmed)
  have hdV: "\<not> js_space (hd V)" using trim_ends [of V] Vne Vtr by simp
  have stW: "starts_i W l"
  proof (cases "startsWith (toLowerCase V) l")
    case True
    then show ?thesis using W by (simp add: with_label_def startsWith_starts_i)
  next
    case False
    have "starts_i (p0 @ ('' '' @ V)) l" using l(3) by (rule starts_i_append)
    with False show ?thesis using W by (simp add: with_label_def)
  qed
  let ?t = "dropWhile js_space (drop (length l) (W @ c # rest))"
  obtain r ks where "rx_match ?X (W @ c # rest) = ([lazy_cut ?a ?t], r) # ks"
    using section_head [OF a_end starts_i_append [OF stW]] by blast
  then have "rx_exec ?X (W @ c # rest) = Some [lazy_cut ?a ?t]"
    by (rule rx_exec_here)
  then have cap: "captured ?X (W @ c # rest) = trim (lazy_cut ?a ?t)"
    by (rule captured_group)
  have nolabel: "\<not> startsWith (toLowerCase V) l"
  proof
    assume sw: "startsWith (toLowerCase V) l"
    then have WV: "W = V" using W by (simp add: with_label_def)
    have "V \<noteq> D" using sw D(5) by auto
    then have Vc: "V = trim (lazy_cut ?a ?t)"
      using V cap by (simp add: or_default_def split: if_splits)
    have len: "length l \<le> length V"
      using startsWith_starts_i [OF sw] by (rule starts_i_length)
    have "?t = dropWhile js_space ((drop (length l) V @ [c]) @ rest)"
      using len WV by simp
    also have "\<dots> = dropWhile js_space (drop (length l) V @ [c]) @ rest"
      using rest(1,2) by (rule dropWhile_stop)
    finally have "length (lazy_cut ?a ?t) \<le> length (dropWhile js_space (drop (length l) V @ [c]))"
      using lazy_cut_le [OF rest(3)] by simp
    also have "\<dots> \<le> length (drop (length l) V @ [c])"
      by (rule length_dropWhile_le)
    also have "\<dots> < length V"
      using len l(1) by simp
    finally have "length (lazy_cut ?a ?t) < length V" .
    moreover have "length V \<le> length (lazy_cut ?a ?t)"
      using Vc trim_length [of "lazy_cut ?a ?t"] by simp
    ultimately show False by simp
  qed
  then have WV: "W = p0 @ '' '' @ V" using W by (simp add: with_label_def)
  have t: "?t = V @ c # rest"
    using l(2) Vne hdV unfolding WV by (cases V) (simp_all add: js_space_def)
  have free: "\<not> contains_i V la \<and> \<not> contains_i V lb"
  proof (cases "V = D")
    case True
    then show ?thesis using D(3,4) by simp
  next
    case False
    then have Vc: "V = trim (lazy_cut ?a ?t)"
      using V cap by (simp add: or_default_def split: if_splits)
    then have len: "length V \<le> length (lazy_cut ?a ?t)"
      using trim_length [of "lazy_cut ?a ?t"] by simp
    have no: "\<not> starts_i (drop m V) k" if k: "k = la \<or> k = lb" for m k
    proof
      assume st: "starts_i (drop m V) k"
      have "k \<noteq> []" using k la by auto
      then have "m < length V"
        using starts_i_length [OF st] by (cases k) auto
      then have m: "m < length (lazy_cut ?a ?t)" using len by simp
      have "starts_i (drop m V @ c # rest) k"
        using st by (rule starts_i_append)
      then have "rx_match ?a (drop m ?t) \<noteq> []"
        using k \<open>m < length V\<close> unfolding t ahead_match by auto
      with lazy_cut_before [OF m] show False by simp
    qed
    show ?thesis
      using no contains_i_at by blast
  qed
  show ?thesis
    using WV Vne Vtr nolabel free by simp
qed

lemma confidence_groups:
  assumes "(cs, rest) \<in> set (rx_match confidence_rx t)"
  shows "\<exists>g cs'. cs = g # cs'"
proof -
  obtain c1 r1 c23 where
    m1: "(c1, r1) \<in> set (rx_match (lit_i ''confidence:'') t)"
    and m23: "(c23, rest) \<in> set (rx_match (Cat (Star js_space)
                (Grp (Cat (Rep 1 3 js_digit) (chr_i CHR ''%'')))) r1)"
    and cs1: "cs = c1 @ c23"
    using assms unfolding confidence_rx_def cat_mem [of cs rest "lit_i ''confidence:''"] by blast
  obtain c2 r2 c3 where
    m2: "(c2, r2) \<in> set (rx_match (Star js_space) r1)"
    and m3: "(c3, rest) \<in> set (rx_match (Grp (Cat (Rep 1 3 js_digit) (chr_i CHR ''%''))) r2)"
    and cs2: "c23 = c2 @ c3"
    using m23 unfolding cat_mem [of c23 rest "Star js_space"] by blast
  have "c1 = []" using m1 by (rule lit_caps)
  moreover have "c2 = []" using m2 by auto
  ultimately have "cs = c3" using cs1 cs2 by simp
  then show ?thesis using group_text [OF m3] by blast
qed

lemma confidence_found:
  assumes "list_all js_digit d" "1 \<le> length d" "length d \<le> 3"
  shows "captured confidence_rx (pre @ ''Confidence: '' @ d @ ''%'') \<noteq> []"
proof -
  let ?s = "pre @ ''Confidence: '' @ d @ ''%''"
  have "rx_match confidence_rx (''Confidence: '' @ d @ ''%'') \<noteq> []"
    using confidence_head [OF assms] by auto
  then have "rx_exec confidence_rx ?s \<noteq> None"
    unfolding rx_exec_found by blast
  then obtain cs where ex: "rx_exec confidence_rx ?s = Some cs" by blast
  obtain g cs' where cs: "cs = g # cs'"
    using rx_exec_some [OF ex] confidence_groups by blast
  have g: "group1 (rx_exec confidence_rx ?s) = Some g"
    using ex cs by (simp add: group1_def)
  obtain d' where d': "g = d' @ ''%''" "list_all js_digit d'" "1 \<le> length d'"
    using confidence_capture [OF g] by blast
  have "captured confidence_rx ?s = trim g" using g by (simp add: captured_def)
  then show ?thesis using percent_text(1) [OF d'(2,3)] d'(1) by simp
qed

lemma with_label_starts:
  assumes "starts_i p l"
  shows "starts_i (with_label l p v) l"
proof (cases "startsWith (toLowerCase v) l")
  case True
  then show ?thesis by (simp add: with_label_def startsWith_starts_i)
next
  case False
  then show ?thesis using starts_i_append [OF assms] by (simp add: with_label_def)
qed

lemma salvaged_found: "captured confidence_rx (salvaged x) \<noteq> []"
proof -
  obtain d where d: "with_label ''confidence:'' ''Confidence: '' (or_default (captured confidence_rx x) ''30%'')
          = ''Confidence: '' @ d @ ''%''" "list_all js_digit d" "1 \<le> length d" "length d \<le> 3"
    using confidence_section [of x] by blast
  have "salvaged x = (with_label ''explanation:'' ''Explanation: ''
         (or_default (captured explanation_rx x) ''The research could not find a definitive answer.'')
       @ [newline]
       @ with_label ''exact answer:'' ''Exact Answer: '' (or_default (captured exactAnswer_rx x) ''Unknown'')
       @ [newline]) @ ''Confidence: '' @ d @ ''%''"
    unfolding salvaged_def d(1) by simp
  then show ?thesis
    by (simp only: confidence_found [OF d(2,3,4)] not_False_eq_True)
qed

lemma fallback_found: "captured confidence_rx (fallback_answer q) \<noteq> []"
proof -
  have d: "list_all js_digit ''10''" "1 \<le> length ''10''" "length ''10'' \<le> 3"
    by (simp_all add: js_digit_def)
  have "fallback_answer q = (''Explanation: The research could not find a definitive answer to: '' @ [dquote] @ q
            @ [dquote] @ ''.'' @ [newline] @ ''Exact Answer: Unknown'' @ [newline]) @ ''Confidence: '' @ ''10'' @ ''%''"
    by (simp add: fallback_answer_def)
  then show ?thesis
    by (simp only: confidence_found [OF d] not_False_eq_True)
qed

lemma fixed_salvaged:
  assumes "ensureValidBrowseCompFormat y q = y" "\<not> validThreeLines y"
  shows "y = salvaged y"
proof -
  have ne: "y \<noteq> []"
  proof
    assume "y = []"
    then have "ensureValidBrowseCompFormat y q = fallback_answer q"
      by (simp add: ensureValidBrowseCompFormat_def)
    with assms(1) \<open>y = []\<close> show False by (simp add: fallback_answer_def)
  qed
  have "captured confidence_rx y \<noteq> []"
    using format_cases [of y q] assms salvaged_found [of y] fallback_found [of q] by auto
  then show ?thesis
    using assms ne by (simp add: ensureValidBrowseCompFormat_def salvaged_def Let_def)
qed

lemma fixed_canonical:
  assumes fx: "ensureValidBrowseCompFormat y q = y" and nv: "\<not> validThreeLines y"
  shows "canonical_answer y"
proof -
  define E where "E = or_default (captured explanation_rx y) ''The research could not find a definitive answer.''"
  define A where "A = or_default (captured exactAnswer_rx y) ''Unknown''"
  define W1 where "W1 = with_label ''explanation:'' (''Explanation:'' @ '' '') E"
  define W2 where "W2 = with_label ''exact answer:'' (''Exact Answer:'' @ '' '') A"
  obtain d where d: "with_label ''confidence:'' ''Confidence: '' (or_default (captured confidence_rx y) ''30%'')
          = ''Confidence: '' @ d @ ''%''" "list_all js_digit d" "1 \<le> length d" "length d \<le> 3"
    using confidence_section [of y] by blast
  let ?W3 = "''Confidence: '' @ d @ ''%''"
  have y: "y = W1 @ newline # W2 @ newline # ?W3"
    using fixed_salvaged [OF fx nv] d(1) by (simp add: salvaged_def W1_def W2_def E_def A_def)
  have nl: "js_space newline" by (simp add: js_space_def newline_def)
  have nl2: "\<forall>x\<in>set ''exact answer:''. rx_canon x \<noteq> rx_canon newline" by code_simp
  have st2: "starts_i W2 ''exact answer:''"
    unfolding W2_def by (rule with_label_starts) code_simp
  have st3: "starts_i ?W3 ''confidence:''"
    by (rule starts_i_append) code_simp
  have hd2: "W2 \<noteq> [] \<and> \<not> js_space (hd W2)"
    using st2 by (rule starts_i_hd) (simp_all add: js_space_def ascii_upper_def)
  \<comment> \<open>the explanation\<close>
  have 1: "W1 = ''Explanation:'' @ '' '' @ E \<and> E \<noteq> [] \<and> trim E = E
           \<and> \<not> startsWith (toLowerCase E) ''explanation:''
           \<and> \<not> contains_i E ''exact answer:'' \<and> \<not> contains_i E ''confidence:''"
  proof (rule section_fixed [where c = newline and rest = "W2 @ newline # ?W3"
          and D = "''The research could not find a definitive answer.''"])
    show "E = or_default (captured (Cat (lit_i ''explanation:'') (Cat (Star js_space)
             (Cat (Grp (Lazy any_char)) (Ahead (Alt (lit_i ''exact answer:'') (Alt (lit_i ''confidence:'') Eos))))))
             (W1 @ newline # W2 @ newline # ?W3)) ''The research could not find a definitive answer.''"
      using y by (simp add: E_def explanation_rx_def)
    show "W1 = with_label ''explanation:'' (''Explanation:'' @ '' '') E" by (rule W1_def)
    show "starts_i ''Explanation:'' ''explanation:''" by code_simp
    show "rx_match (Alt (lit_i ''exact answer:'') (Alt (lit_i ''confidence:'') Eos)) (W2 @ newline # ?W3) \<noteq> []"
      unfolding ahead_match using starts_i_append [OF st2] by blast
    show "\<not> js_space (hd (W2 @ newline # ?W3))" using hd2 by simp
    show "\<not> contains_i ''The research could not find a definitive answer.'' ''exact answer:''" by code_simp
    show "\<not> contains_i ''The research could not find a definitive answer.'' ''confidence:''" by code_simp
    show "\<not> startsWith (toLowerCase ''The research could not find a definitive answer.'') ''explanation:''"
      by code_simp
    show "trim ''The research could not find a definitive answer.'' = ''The research could not find a definitive answer.''"
      by (rule default_trimmed)
  qed (simp_all add: nl)
  \<comment> \<open>the exact answer\<close>
  have cl12: "clear_of ''Explanation: '' ''exact answer:''" by code_simp
  have e_free: "\<not> contains_i E ''exact answer:''" using 1 by blast
  have y1: "y = ''Explanation: '' @ E @ newline # (W2 @ newline # ?W3)"
    using y 1 by simp
  have "rx_exec exactAnswer_rx y = rx_exec exactAnswer_rx (W2 @ newline # ?W3)"
    unfolding exactAnswer_rx_def y1 by (rule label_skip [OF cl12 e_free nl2])
  then have cap2: "captured exactAnswer_rx y = captured exactAnswer_rx (W2 @ newline # ?W3)"
    by (simp add: captured_def)
  have 2: "W2 = ''Exact Answer:'' @ '' '' @ A \<and> A \<noteq> [] \<and> trim A = A
           \<and> \<not> startsWith (toLowerCase A) ''exact answer:''
           \<and> \<not> contains_i A ''explanation:'' \<and> \<not> contains_i A ''confidence:''"
  proof (rule section_fixed [where c = newline and rest = "?W3" and D = "''Unknown''"])
    show "A = or_default (captured (Cat (lit_i ''exact answer:'') (Cat (Star js_space)
             (Cat (Grp (Lazy any_char)) (Ahead (Alt (lit_i ''explanation:'') (Alt (lit_i ''confidence:'') Eos))))))
             (W2 @ newline # ?W3)) ''Unknown''"
      using cap2 by (simp add: A_def exactAnswer_rx_def)
    show "W2 = with_label ''exact answer:'' (''Exact Answer:'' @ '' '') A" by (rule W2_def)
    show "starts_i ''Exact Answer:'' ''exact answer:''" by code_simp
    show "rx_match (Alt (lit_i ''explanation:'') (Alt (lit_i ''confidence:'') Eos)) ?W3 \<noteq> []"
      unfolding ahead_match using st3 by blast
    show "\<not> contains_i ''Unknown'' ''explanation:''" by code_simp
    show "\<not> contains_i ''Unknown'' ''confidence:''" by code_simp
    show "\<not> startsWith (toLowerCase ''Unknown'') ''exact answer:''" by code_simp
    show "trim ''Unknown'' = ''Unknown''" by (rule default_trimmed)
  qed (simp_all add: nl, simp add: js_space_def)
  have "y = ''Explanation: '' @ E @ [newline] @ ''Exact Answer: '' @ A @ [newline]
                    @ ''Confidence: '' @ d @ ''%''"
    using y 1 2 by simp
  then show ?thesis
    unfolding canonical_answer_def using 1 2 d(2,3,4) by blast
qed

text \<open>
  C4 as stated fails. With an empty final text and a question that quotes the answer
  format, the first pass gives the fallback answer around the question, five lines long;
  the second pass salvages its sections from that text and returns another one, whose
  exact answer is the placeholder of the question.
\<close>

theorem formatter_idempotence_counterexample:
  "ensureValidBrowseCompFormat [] format_question
     = ''Explanation: The research could not find a definitive answer to: '' @ [dquote] @ ''Who?''
        @ [newline] @ ''Exact Answer: {answer}'' @ [newline] @ ''Confidence: {score}'' @ [dquote] @ ''.''
        @ [newline] @ ''Exact Answer: Unknown'' @ [newline] @ ''Confidence: 10%''
   \<and> ensureValidBrowseCompFormat (ensureValidBrowseCompFormat [] format_question) format_question
     = ''Explanation: The research could not find a definitive answer to: '' @ [dquote] @ ''Who?''
        @ [newline] @ ''Exact Answer: {answer}'' @ [newline] @ ''Confidence: 10%''"
  by code_simp

text \<open>
  C4, amended. The formatter is idempotent at exactly those inputs whose formatted text
  either passes the formatter's own three-line test or is a canonical answer: the labels
  \<open>Explanation: \<close>, \<open>Exact Answer: \<close> and \<open>Confidence: \<close> in this spelling, an
  explanation and an exact answer (of one or more lines) that are trimmed, not empty, do
  not begin with their own label and contain no label that ends their section, and a
  confidence of one to three digits and \<open>%\<close>. At every other input the second pass
  returns another text: so it does when a salvaged explanation begins with its label in
  another spelling, which the first pass keeps and the second replaces.
\<close>

theorem formatter_idempotent_iff:
  "(ensureValidBrowseCompFormat (ensureValidBrowseCompFormat x q) q = ensureValidBrowseCompFormat x q)
   = (validThreeLines (ensureValidBrowseCompFormat x q)
      \<or> canonical_answer (ensureValidBrowseCompFormat x q))"
proof -
  let ?y = "ensureValidBrowseCompFormat x q"
  have "ensureValidBrowseCompFormat ?y q = ?y" if "validThreeLines ?y"
  proof -
    have "\<not> validThreeLines []"
      by (simp add: validThreeLines_def trim_def)
    with that have "?y \<noteq> []" by auto
    with that have "ensureValidBrowseCompFormat ?y q = trim ?y"
      by (simp add: ensureValidBrowseCompFormat_def)
    then show ?thesis
      by (simp add: format_trimmed)
  qed
  then show ?thesis
    using canonical_fixed [of ?y q] fixed_canonical [of ?y q] by blast
qed

theorem formatter_idempotent_iff_witness:
  "\<not> validThreeLines (ensureValidBrowseCompFormat multiline_answer ''Which river is the longest?'')
   \<and> canonical_answer (ensureValidBrowseCompFormat multiline_answer ''Which river is the longest?'')
   \<and> ensureValidBrowseCompFormat
         (ensureValidBrowseCompFormat multiline_answer ''Which river is the longest?'')
         ''Which river is the longest?''
       = multiline_answer
   \<and> ensureValidBrowseCompFormat nested_label ''Which river is the longest?''
       = ''EXPLANATION:foo'' @ [newline] @ ''bar'' @ [newline] @ ''Exact Answer: Unknown''
          @ [newline] @ ''Confidence: 30%''
   \<and> ensureValidBrowseCompFormat
         (ensureValidBrowseCompFormat nested_label ''Which river is the longest?'')
         ''Which river is the longest?''
       = ''Explanation: foo'' @ [newline] @ ''bar'' @ [newline] @ ''Exact Answer: Unknown''
          @ [newline] @ ''Confidence: 30%''
   \<and> \<not> validThreeLines (ensureValidBrowseCompFormat nested_label ''Which river is the longest?'')
   \<and> \<not> canonical_answer (ensureValidBrowseCompFormat nested_label ''Which river is the longest?'')"
proof -
  have first: "ensureValidBrowseCompFormat nested_label ''Which river is the longest?''
       = ''EXPLANATION:foo'' @ [newline] @ ''bar'' @ [newline] @ ''Exact Answer: Unknown''
          @ [newline] @ ''Confidence: 30%''"
    by code_simp
  have second: "ensureValidBrowseCompFormat
         (ensureValidBrowseCompFormat nested_label ''Which river is the longest?'')
         ''Which river is the longest?''
       = ''Explanation: foo'' @ [newline] @ ''bar'' @ [newline] @ ''Exact Answer: Unknown''
          @ [newline] @ ''Confidence: 30%''"
    by code_simp
  have differ: "ensureValidBrowseCompFormat
         (ensureValidBrowseCompFormat nested_label ''Which river is the longest?'')
         ''Which river is the longest?''
       \<noteq> ensureValidBrowseCompFormat nested_label ''Which river is the longest?''"
    unfolding second unfolding first by simp
  have neither: "\<not> validThreeLines (ensureValidBrowseCompFormat nested_label ''Which river is the longest?'')
     \<and> \<not> canonical_answer (ensureValidBrowseCompFormat nested_label ''Which river is the longest?'')"
    using formatter_idempotent_iff [of nested_label "''Which river is the longest?''"] differ
    by blast
  have eq: "ensureValidBrowseCompFormat multiline_answer ''Which river is the longest?'' = multiline_answer"
    by code_simp
  have nv: "\<not> validThreeLines multiline_answer"
    by code_simp
  have "multiline_answer = ''Explanation: '' @ (''The Nile is the longest.'' @ [newline] @ ''It is 6650 km long.'')
          @ [newline] @ ''Exact Answer: '' @ ''Nile'' @ [newline] @ ''Confidence: '' @ ''90'' @ ''%''"
    by (simp add: multiline_answer_def)
  moreover have "trim (''The Nile is the longest.'' @ [newline] @ ''It is 6650 km long.'')
                 = ''The Nile is the longest.'' @ [newline] @ ''It is 6650 km long.''"
    by code_simp
  moreover have "\<not> startsWith (toLowerCase (''The Nile is the longest.'' @ [newline] @ ''It is 6650 km long.''))
                    ''explanation:''"
    by code_simp
  moreover have "\<not> contains_i (''The Nile is the longest.'' @ [newline] @ ''It is 6650 km long.'') ''exact answer:''"
    by code_simp
  moreover have "\<not> contains_i (''The Nile is the longest.'' @ [newline] @ ''It is 6650 km long.'') ''confidence:''"
    by code_simp
  moreover have "trim ''Nile'' = ''Nile''" by code_simp
  moreover have "\<not> startsWith (toLowerCase ''Nile'') ''exact answer:''" by code_simp
  moreover have "\<not> contains_i ''Nile'' ''explanation:''" by code_simp
  moreover have "\<not> contains_i ''Nile'' ''confidence:''" by code_simp
  moreover have "list_all js_digit ''90''" by code_simp
  ultimately have can: "canonical_answer multiline_answer"
    unfolding canonical_answer_def
    by (intro exI [of _ "''The Nile is the longest.'' @ [newline] @ ''It is 6650 km long.''"]
              exI [of _ "''Nile''"] exI [of _ "''90''"]) simp
  have fixed: "ensureValidBrowseCompFormat
         (ensureValidBrowseCompFormat multiline_answer ''Which river is the longest?'')
         ''Which river is the longest?''
       = multiline_answer"
    using formatter_idempotent_iff [of multiline_answer "''Which river is the longest?''"] eq can
    by simp
  show ?thesis
    using fixed eq nv can first second neither by simp
qed

end
